theory Spec2Isabelle
  imports Main
begin

chapter \<open>The batch analysis pipeline of the radiology diagnostic application\<close>

text \<open>
  A shallow embedding of the pipeline that partitions uploaded images into batches
  (\<open>ImageProcessor.createBatches\<close>), submits each batch to the analysis service with retry
  and backoff (\<open>RadiologyAPIClient\<close>), parses the textual answer into sections, runs the
  batches under a concurrency limit (\<open>startAnalysis\<close> of the \<open>useUpload\<close> hook) and combines
  the results into one report (\<open>generateConsolidatedReport\<close>). The definitions come first,
  in the order of the data flow; the properties follow.
\<close>

section \<open>Data model (src/lib/types.ts)\<close>

text \<open>
  The four status strings \<open>'pending' | 'processing' | 'completed' | 'error'\<close> shared by
  images and batches.
\<close>

datatype Status = Pending | Processing | Completed | Error

text \<open>
  \<open>UploadedImage\<close>. The browser \<open>File\<close> object is opaque to every function modelled here
  and is kept as a handle. Here and below, a field whose name is a reserved word or a library
  constant, or is shared by two interfaces, carries a prefix that names its record
  (\<open>img_status\<close> for \<open>status\<close> of an image, \<open>batch_status\<close> for \<open>status\<close> of a batch).
\<close>

record UploadedImage =
  img_id :: string
  file_obj :: nat
  preview :: string
  img_size :: nat
  img_type :: string
  img_name :: string
  img_status :: Status
  img_error :: "string option"

record DiagnosticResult =
  batchId :: string
  imageCount :: nat
  findings :: string
  recommendations :: string
  confidence :: string
  technicalNotes :: "string option"
  processingTime :: nat

record ImageBatch =
  batch_id :: string
  images :: "UploadedImage list"
  batch_status :: Status
  result :: "DiagnosticResult option"
  batch_error :: "string option"
  startTime :: "nat option"
  endTime :: "nat option"

datatype ReportStatus = ReportProcessing | ReportCompleted | ReportError

record UploadConfig =
  maxImages :: nat
  maxFileSize :: nat
  allowedTypes :: "string list"
  batchSize :: nat

definition DEFAULT_CONFIG :: UploadConfig where
  "DEFAULT_CONFIG =
     \<lparr> maxImages = 200,
       maxFileSize = 50 * 1024 * 1024,
       allowedTypes = [''image/jpeg'', ''image/png'', ''image/tiff'', ''image/bmp'',
                       ''application/dicom'', ''image/dicom''],
       batchSize = 20 \<rparr>"

section \<open>Template literals and array helpers\<close>

text \<open>
  \<open>`${n}`\<close> for a non-negative integer \<open>n\<close>: its decimal digits, most significant first.
  \<open>digit\<close> is only applied to numbers below 10.
\<close>

definition digit :: "nat \<Rightarrow> char" where
  "digit d = ''0123456789'' ! d"

function show_nat :: "nat \<Rightarrow> string" where
  "show_nat n = (if n < 10 then [digit n] else show_nat (n div 10) @ [digit (n mod 10)])"
  by pat_completeness auto
termination
  by (relation "measure (\<lambda>n. n)") auto

declare show_nat.simps [simp del]

text \<open>
  \<open>Array.prototype.slice(i, j)\<close> for indices \<open>0 \<le> i \<le> j\<close>, the only way the code calls it:
  the elements at positions \<open>i, \<dots>, j - 1\<close> that exist.
\<close>

definition slice :: "'a list \<Rightarrow> nat \<Rightarrow> nat \<Rightarrow> 'a list" where
  "slice xs i j = take (j - i) (drop i xs)"

section \<open>Partitioner: \<open>ImageProcessor.createBatches\<close>\<close>

text \<open>
  The \<open>for (let i = 0; i < validImages.length; i += batchSize)\<close> loop, with the loop
  variable \<open>i\<close> and the array \<open>batches\<close> as arguments. With \<open>batchSize = 0\<close> the source
  never leaves the loop, so the loop is a partial function and its termination for a
  positive batch size is a theorem below. \<open>now k\<close> is the reading of \<open>Date.now()\<close> taken
  while the \<open>k\<close>-th batch is built.
\<close>

partial_function (option) createBatches_loop ::
  "(nat \<Rightarrow> nat) \<Rightarrow> UploadedImage list \<Rightarrow> nat \<Rightarrow> nat \<Rightarrow> ImageBatch list \<Rightarrow> ImageBatch list option"
where
  "createBatches_loop now validImages bsz i batches =
     (if i < length validImages then
        createBatches_loop now validImages bsz (i + bsz)
          (batches @
            [\<lparr> batch_id = ''batch-'' @ show_nat (i div bsz + 1) @ ''-'' @ show_nat (now (length batches)),
               images = slice validImages i (i + bsz),
               batch_status = Pending, result = None, batch_error = None,
               startTime = None, endTime = None \<rparr>])
      else Some batches)"

declare createBatches_loop.simps [code]

definition createBatches ::
  "(nat \<Rightarrow> nat) \<Rightarrow> UploadedImage list \<Rightarrow> nat \<Rightarrow> ImageBatch list option" where
  "createBatches now imgs bsz =
     createBatches_loop now (filter (\<lambda>img. img_status img \<noteq> Error) imgs) bsz 0 []"

text \<open>
  Auxiliary to the proofs about \<open>createBatches\<close>: the list of consecutive runs of \<open>n\<close> elements.
\<close>

fun chunks :: "nat \<Rightarrow> 'a list \<Rightarrow> 'a list list" where
  "chunks n [] = []"
| "chunks n (x # xs) = take n (x # xs) # chunks n (drop (n - 1) xs)"

section \<open>AnalysisClient: \<open>RadiologyAPIClient\<close> (request, retry, classification)\<close>

text \<open>
  A thrown JavaScript error: its \<open>name\<close> and its \<open>message\<close>. Every value thrown on the
  paths modelled here is an \<open>Error\<close> object (\<open>new Error(\<dots>)\<close>, or the rejection of
  \<open>fetch\<close>, \<open>response.text()\<close> or \<open>response.json()\<close>), so \<open>message\<close> is a string and
  \<open>error.message?.includes\<close> never short-circuits.
\<close>

record js_error =
  err_name :: string
  err_message :: string

text \<open>\<open>String.prototype.includes\<close>: the pattern occurs as a contiguous substring.\<close>

fun str_includes :: "string \<Rightarrow> string \<Rightarrow> bool" where
  "str_includes [] p = (p = [])"
| "str_includes (c # cs) p = (take (length p) (c # cs) = p \<or> str_includes cs p)"

text \<open>
  The parsed JSON body, as far as \<open>response.choices[0]?.message?.content\<close> reads it:
  \<open>Inl e\<close> when reading \<open>response.choices[0]\<close> throws \<open>e\<close> (there is no \<open>choices\<close> array),
  otherwise for each choice its \<open>message.content\<close> string when present.
\<close>

type_synonym api_json = "js_error + string option list"

text \<open>
  What the network does with one \<open>fetch\<close> call. Either the promise rejects (with an
  \<open>AbortError\<close> when the five-minute timer aborts the request, with the runtime's error
  on a transport failure), or a response arrives, with the results of reading its body as
  text and as JSON.
\<close>

record http_response =
  ok :: bool
  http_status :: nat
  statusText :: string
  text_body :: "js_error + string"
  json_body :: "js_error + api_json"

datatype fetch_outcome = Rejected js_error | Responded http_response

definition REQUEST_TIMEOUT :: nat where
  "REQUEST_TIMEOUT = 5 * 60 * 1000"

definition MAX_RETRIES :: nat where
  "MAX_RETRIES = 3"

text \<open>
  The \<open>try\<close> block of \<open>makeAPIRequest\<close>: the value returned, or the error thrown into the
  \<open>catch\<close> block.
\<close>

definition attempt :: "fetch_outcome \<Rightarrow> js_error + api_json" where
  "attempt out =
     (case out of
        Rejected e \<Rightarrow> Inl e
      | Responded response \<Rightarrow>
          if \<not> ok response then
            (case text_body response of
               Inl e \<Rightarrow> Inl e
             | Inr errorText \<Rightarrow>
                 Inl \<lparr> err_name = ''Error'',
                       err_message = ''API request failed: '' @ show_nat (http_status response) @ '' ''
                          @ statusText response @ '' - '' @ errorText \<rparr>)
          else json_body response)"

definition isRetryableError :: "js_error \<Rightarrow> bool" where
  "isRetryableError e =
     (if err_name e = ''AbortError'' then False
      else if str_includes (err_message e) ''429'' then True
      else if str_includes (err_message e) ''502'' then True
      else if str_includes (err_message e) ''503'' then True
      else if str_includes (err_message e) ''network'' then True
      else False)"

text \<open>
  What \<open>makeAPIRequest\<close> does that the outside can see: the \<open>fetch\<close> calls, tagged with the
  \<open>retryCount\<close> they are made at, and the backoff delays in milliseconds.
\<close>

datatype client_event = Fetch nat | Delay nat

text \<open>
  \<open>makeAPIRequest(payload, retryCount)\<close>. \<open>fetch k\<close> is the outcome of the \<open>fetch\<close> call
  made at \<open>retryCount = k\<close>. The result is the trace of events and the value returned
  (\<open>Inr\<close>) or the error thrown to the caller (\<open>Inl\<close>).
\<close>

function makeAPIRequest ::
  "(nat \<Rightarrow> fetch_outcome) \<Rightarrow> nat \<Rightarrow> client_event list \<times> (js_error + api_json)" where
  "makeAPIRequest fetch retryCount =
     (case attempt (fetch retryCount) of
        Inr v \<Rightarrow> ([Fetch retryCount], Inr v)
      | Inl e \<Rightarrow>
          if retryCount < MAX_RETRIES \<and> isRetryableError e then
            (case makeAPIRequest fetch (retryCount + 1) of
               (tr, r) \<Rightarrow> (Fetch retryCount # Delay (2 ^ retryCount * 1000) # tr, r))
          else ([Fetch retryCount], Inl e))"
  by pat_completeness auto
termination
  by (relation "measure (\<lambda>(fetch, retryCount). MAX_RETRIES - retryCount)") auto

declare makeAPIRequest.simps [simp del]

section \<open>ResponseParser: \<open>extractSections\<close> and \<open>parseAnalysisResponse\<close>\<close>

text \<open>
  A text is a list of characters, one per code unit of the JavaScript string. The type
  \<open>char\<close> has 256 values, so the texts covered are those whose code units lie below 256;
  the characters the expressions name are all ASCII.

  The four regular expressions of \<open>extractSections\<close> have the shape
  \<open>/(?:H1|H2|H3):([\s\S]*?)(?=(?:T1|\<dots>|Tn|$))/gi\<close>: an alternation of headings, a colon,
  a lazy body, and a lookahead for a terminator or the end of the input. A heading is a
  sequence of pattern characters, matched ignoring case, and in \<open>FOLLOW.?UP\<close> an optional
  \<open>.\<close>.
\<close>

datatype atom = Lit char | OptDot

text \<open>
  Case folding of the \<open>i\<close> flag. The pattern characters are ASCII, and a character outside
  ASCII is never folded onto an ASCII one, so folding the letters \<open>a\<close> to \<open>z\<close> decides every
  comparison with a pattern character.
\<close>

definition canon :: "char \<Rightarrow> char" where
  "canon c =
     (case map_of (zip ''abcdefghijklmnopqrstuvwxyz'' ''ABCDEFGHIJKLMNOPQRSTUVWXYZ'') c of
        Some u \<Rightarrow> u
      | None \<Rightarrow> c)"

text \<open>The characters \<open>.\<close> does not match: the line terminators.\<close>

definition isLineTerminator :: "char \<Rightarrow> bool" where
  "isLineTerminator c = (c = CHR 0x0A \<or> c = CHR 0x0D)"

text \<open>
  Matching a sequence of atoms at the start of the input, by backtracking in the order of
  the regular expression engine (\<open>.?\<close> is greedy: one character first, then none). The
  result is the input left after the first match found.
\<close>

fun matchAtoms :: "atom list \<Rightarrow> string \<Rightarrow> string option" where
  "matchAtoms [] s = Some s"
| "matchAtoms (Lit p # as) [] = None"
| "matchAtoms (Lit p # as) (c # cs) = (if canon c = canon p then matchAtoms as cs else None)"
| "matchAtoms (OptDot # as) [] = matchAtoms as []"
| "matchAtoms (OptDot # as) (c # cs) =
     (if isLineTerminator c then matchAtoms as (c # cs)
      else (case matchAtoms as cs of
              Some r \<Rightarrow> Some r
            | None \<Rightarrow> matchAtoms as (c # cs)))"

text \<open>
  The alternation of headings followed by the colon: the alternatives are tried in order,
  each together with the colon, since the rest of the expression can always be matched.
\<close>

fun matchHeading :: "atom list list \<Rightarrow> string \<Rightarrow> string option" where
  "matchHeading [] s = None"
| "matchHeading (h # hs) s =
     (case matchAtoms (h @ [Lit CHR '':'']) s of
        Some r \<Rightarrow> Some r
      | None \<Rightarrow> matchHeading hs s)"

text \<open>The lookahead \<open>(?=(?:T1|\<dots>|Tn|$))\<close> at the start of the input.\<close>

definition lookahead :: "string list \<Rightarrow> string \<Rightarrow> bool" where
  "lookahead terms s = (s = [] \<or> list_ex (\<lambda>t. matchAtoms (map Lit t) s \<noteq> None) terms)"

text \<open>The lazy body \<open>[\s\S]*?\<close>: the shortest run of characters after which the lookahead holds.\<close>

fun lazyBody :: "string list \<Rightarrow> string \<Rightarrow> string" where
  "lazyBody terms [] = []"
| "lazyBody terms (c # cs) = (if lookahead terms (c # cs) then [] else c # lazyBody terms cs)"

record section_pattern =
  headings :: "atom list list"
  terminators :: "string list"

text \<open>One match attempt at the start of the input: the matched text, heading included.\<close>

definition matchAt :: "section_pattern \<Rightarrow> string \<Rightarrow> string option" where
  "matchAt p s =
     (case matchHeading (headings p) s of
        None \<Rightarrow> None
      | Some r \<Rightarrow> Some (take (length s - length r) s @ lazyBody (terminators p) r))"

text \<open>
  All matches of a global (\<open>g\<close>) expression, left to right: a match is looked for at each
  position in turn, and after a match the search goes on where the match ended. Every
  match starts with a heading, which is not empty, so there is no match at the end of the
  input.
\<close>

fun matchAll :: "section_pattern \<Rightarrow> string \<Rightarrow> string list" where
  "matchAll p [] = []"
| "matchAll p (c # cs) =
     (case matchAt p (c # cs) of
        None \<Rightarrow> matchAll p cs
      | Some m \<Rightarrow> m # matchAll p (drop (length m - 1) cs))"

text \<open>
  \<open>text.match(pattern)\<close> for a pattern with the \<open>g\<close> flag: \<open>null\<close> when there is no match,
  otherwise the array of all complete matches (capture groups are not part of it).
\<close>

definition str_match :: "string \<Rightarrow> section_pattern \<Rightarrow> string list option" where
  "str_match text p = (case matchAll p text of [] \<Rightarrow> None | m # ms \<Rightarrow> Some (m # ms))"

text \<open>\<open>String.prototype.trim\<close>: white space and line terminators are removed at both ends.\<close>

definition isWhiteSpace :: "char \<Rightarrow> bool" where
  "isWhiteSpace c =
     (c \<in> set [CHR 0x09, CHR 0x0A, CHR 0x0B, CHR 0x0C, CHR 0x0D, CHR 0x20, CHR 0xA0])"

definition trim :: "string \<Rightarrow> string" where
  "trim s = rev (dropWhile isWhiteSpace (rev (dropWhile isWhiteSpace s)))"

definition lits :: "string \<Rightarrow> atom list" where
  "lits s = map Lit s"

definition findingsPattern :: section_pattern where
  "findingsPattern =
     \<lparr> headings = [lits ''DETAILED FINDINGS'', lits ''FINDINGS'', lits ''OBSERVATIONS''],
       terminators = [''CLINICAL SIGNIFICANCE'', ''RECOMMENDATIONS'', ''TECHNICAL NOTES''] \<rparr>"

definition recommendationsPattern :: section_pattern where
  "recommendationsPattern =
     \<lparr> headings = [lits ''RECOMMENDATIONS'', lits ''NEXT STEPS'',
                    lits ''FOLLOW'' @ [OptDot] @ lits ''UP''],
       terminators = [''TECHNICAL NOTES'', ''CONFIDENCE''] \<rparr>"

definition confidencePattern :: section_pattern where
  "confidencePattern =
     \<lparr> headings = [lits ''CONFIDENCE'', lits ''CERTAINTY'', lits ''DIAGNOSTIC CONFIDENCE''],
       terminators = [''TECHNICAL NOTES''] \<rparr>"

definition technicalNotesPattern :: section_pattern where
  "technicalNotesPattern =
     \<lparr> headings = [lits ''TECHNICAL NOTES'', lits ''TECHNICAL COMMENTS'', lits ''IMAGE QUALITY''],
       terminators = [] \<rparr>"

record sections =
  sec_findings :: "string option"
  sec_recommendations :: "string option"
  sec_confidence :: "string option"
  sec_technicalNotes :: "string option"

text \<open>
  One turn of the loop over \<open>Object.entries(patterns)\<close>: the key is set to
  \<open>match[1].trim()\<close> when \<open>match\<close> is not \<open>null\<close> and \<open>match[1]\<close> is a non-empty string.
  \<open>match[1]\<close> is the second element of the array of matches.
\<close>

definition extractSection :: "section_pattern \<Rightarrow> string \<Rightarrow> string option" where
  "extractSection p text =
     (case str_match text p of
        None \<Rightarrow> None
      | Some ms \<Rightarrow>
          (case ms of
             m0 # m1 # rest \<Rightarrow> if m1 \<noteq> [] then Some (trim m1) else None
           | _ \<Rightarrow> None))"

definition extractSections :: "string \<Rightarrow> sections" where
  "extractSections text =
     \<lparr> sec_findings = extractSection findingsPattern text,
       sec_recommendations = extractSection recommendationsPattern text,
       sec_confidence = extractSection confidencePattern text,
       sec_technicalNotes = extractSection technicalNotesPattern text \<rparr>"

text \<open>\<open>a || b\<close> for an optional string \<open>a\<close>: \<open>b\<close> when \<open>a\<close> is \<open>undefined\<close> or empty.\<close>

definition js_or :: "string option \<Rightarrow> string \<Rightarrow> string" where
  "js_or a b = (case a of None \<Rightarrow> b | Some s \<Rightarrow> if s = [] then b else s)"

definition parseAnalysisResponse :: "string \<Rightarrow> string \<Rightarrow> nat \<Rightarrow> nat \<Rightarrow> DiagnosticResult" where
  "parseAnalysisResponse analysisText bId imgCount procTime =
     (let secs = extractSections analysisText in
      \<lparr> batchId = bId,
        imageCount = imgCount,
        findings = js_or (sec_findings secs) (take 1000 analysisText @ ''...''),
        recommendations = js_or (sec_recommendations secs) ''Please refer to detailed findings above.'',
        confidence = js_or (sec_confidence secs) ''Standard diagnostic confidence'',
        technicalNotes = sec_technicalNotes secs,
        processingTime = procTime \<rparr>)"

text \<open>
  Some position of the text starts with one of the pattern's headings and a colon: there
  the expression matches.
\<close>

definition headingIn :: "section_pattern \<Rightarrow> string \<Rightarrow> bool" where
  "headingIn p text =
     list_ex (\<lambda>i. matchHeading (headings p) (drop i text) \<noteq> None) [0..<length text]"

text \<open>
  The words a heading stands for: \<open>matchesExactly h w\<close> holds when the whole of \<open>w\<close> is
  the heading \<open>h\<close>, letter case ignored. It states what a heading keyword is without
  reference to the search order of \<open>matchAtoms\<close>.
\<close>

fun matchesExactly :: "atom list \<Rightarrow> string \<Rightarrow> bool" where
  "matchesExactly [] w = (w = [])"
| "matchesExactly (Lit p # as) [] = False"
| "matchesExactly (Lit p # as) (c # cs) = (canon c = canon p \<and> matchesExactly as cs)"
| "matchesExactly (OptDot # as) [] = matchesExactly as []"
| "matchesExactly (OptDot # as) (c # cs) =
     (matchesExactly as (c # cs) \<or> (\<not> isLineTerminator c \<and> matchesExactly as cs))"

text \<open>
  The input starts with the heading keyword \<open>h\<close> immediately followed by a colon.
\<close>

definition keywordColonAt :: "atom list \<Rightarrow> string \<Rightarrow> bool" where
  "keywordColonAt h s =
     list_ex (\<lambda>n. matchesExactly h (take n s) \<and> s ! n = CHR '':'') [0..<length s]"

text \<open>
  Somewhere in the text a heading keyword of the pattern is immediately followed by a colon.
\<close>

definition colonHeadingIn :: "section_pattern \<Rightarrow> string \<Rightarrow> bool" where
  "colonHeadingIn p text =
     list_ex (\<lambda>i. list_ex (\<lambda>h. keywordColonAt h (drop i text)) (headings p)) [0..<length text]"

section \<open>AnalysisClient: \<open>analyzeImageBatch\<close>\<close>

record api_image =
  api_name :: string
  api_data :: string
  api_type :: string

record AnalysisRequest =
  req_images :: "api_image list"
  systemPrompt :: string
  req_batchId :: string

record APIError =
  code :: string
  api_message :: string
  details :: js_error

record AnalysisResponse =
  success :: bool
  resp_result :: "DiagnosticResult option"
  resp_error :: "APIError option"

text \<open>The value returned from the \<open>catch\<close> block of \<open>analyzeImageBatch\<close> for a caught error.\<close>

definition analysisFailed :: "js_error \<Rightarrow> AnalysisResponse" where
  "analysisFailed e =
     \<lparr> success = False, resp_result = None,
       resp_error = Some \<lparr> code = ''ANALYSIS_FAILED'', api_message = err_message e, details = e \<rparr> \<rparr>"

text \<open>
  \<open>analyzeImageBatch(request)\<close>. The payload does not influence what is modelled of the
  network, so it is not built. \<open>procTime\<close> is \<open>Date.now() - startTime\<close> read after the
  request returned. The result is the trace of the request and the response object.
\<close>

definition analyzeImageBatch ::
  "(nat \<Rightarrow> fetch_outcome) \<Rightarrow> AnalysisRequest \<Rightarrow> nat \<Rightarrow> client_event list \<times> AnalysisResponse" where
  "analyzeImageBatch fetch request procTime =
     (if length (req_images request) = 0 then
        ([], analysisFailed \<lparr> err_name = ''Error'', err_message = ''No images provided for analysis'' \<rparr>)
      else if length (req_images request) > 20 then
        ([], analysisFailed \<lparr> err_name = ''Error'',
               err_message = ''Batch size exceeds maximum limit of 20 images'' \<rparr>)
      else
        (case makeAPIRequest fetch 0 of
           (tr, Inl e) \<Rightarrow> (tr, analysisFailed e)
         | (tr, Inr response) \<Rightarrow>
             (case response of
                Inl e \<Rightarrow> (tr, analysisFailed e)
              | Inr choices \<Rightarrow>
                  (case (case choices of [] \<Rightarrow> None | c # cs \<Rightarrow> c) of
                     None \<Rightarrow>
                       (tr, analysisFailed \<lparr> err_name = ''Error'',
                              err_message = ''No analysis content received from API'' \<rparr>)
                   | Some analysisText \<Rightarrow>
                       if analysisText = [] then
                         (tr, analysisFailed \<lparr> err_name = ''Error'',
                                err_message = ''No analysis content received from API'' \<rparr>)
                       else
                         (tr, \<lparr> success = True,
                                resp_result = Some (parseAnalysisResponse analysisText
                                   (req_batchId request) (length (req_images request)) procTime),
                                resp_error = None \<rparr>)))))"

section \<open>Aggregator: \<open>generateConsolidatedReport\<close>\<close>

text \<open>\<open>Array.prototype.join\<close> on an array of strings.\<close>

fun join :: "string \<Rightarrow> string list \<Rightarrow> string" where
  "join sep [] = []"
| "join sep [x] = x"
| "join sep (x # y # ys) = x @ sep @ join sep (y # ys)"

text \<open>
  \<open>.filter(Boolean)\<close> on an array of optional strings: \<open>undefined\<close> and the empty string are
  dropped.
\<close>

definition filterBoolean :: "string option list \<Rightarrow> string list" where
  "filterBoolean xs =
     concat (map (\<lambda>x. case x of None \<Rightarrow> [] | Some s \<Rightarrow> if s = [] then [] else [s]) xs)"

definition LF :: char where
  "LF = CHR 0x0A"

text \<open>The separator \<open>'\n\n--- BATCH SEPARATOR ---\n\n'\<close>.\<close>

definition batchSeparator :: string where
  "batchSeparator = [LF, LF] @ ''--- BATCH SEPARATOR ---'' @ [LF, LF]"

text \<open>
  The head of \<open>overallFindings\<close>, \<open>`Analysis of ${items} medical images across ${groups}
  batches:\n\n`\<close>, as a function of the two numbers it states.
\<close>

definition summarySentence :: "nat \<Rightarrow> nat \<Rightarrow> string" where
  "summarySentence items groups =
     ''Analysis of '' @ show_nat items @ '' medical images across '' @ show_nat groups
       @ '' batches:'' @ [LF, LF]"

definition noFindingsMessage :: string where
  "noFindingsMessage = ''No findings available due to processing errors.''"

text \<open>
  \<open>generateConsolidatedReport(batches, totalImages, startTime, endTime)\<close>; \<open>now\<close> is the
  reading of \<open>Date.now()\<close> for the report id. \<open>b.result!\<close> is \<open>b.result\<close> at run time, so
  \<open>detailedFindings\<close> keeps an \<open>undefined\<close> entry for a completed batch without a result.
\<close>

record ConsolidatedReport =
  report_id :: string
  totalImages :: nat
  totalBatches :: nat
  completedBatches :: nat
  failedBatches :: nat
  overallFindings :: string
  detailedFindings :: "DiagnosticResult option list"
  report_recommendations :: "string list"
  report_confidence :: string
  processingStartTime :: nat
  processingEndTime :: "nat option"
  report_status :: ReportStatus

definition generateConsolidatedReport ::
  "ImageBatch list \<Rightarrow> nat \<Rightarrow> nat \<Rightarrow> nat \<Rightarrow> nat \<Rightarrow> ConsolidatedReport" where
  "generateConsolidatedReport batches nImages startT endT now =
     (let completed = filter (\<lambda>b. batch_status b = Completed) batches;
          failed = filter (\<lambda>b. batch_status b = Error) batches;
          allFindings = filterBoolean (map (\<lambda>b. map_option findings (result b)) completed);
          allRecommendations =
            filterBoolean (map (\<lambda>b. map_option recommendations (result b)) completed)
      in \<lparr> report_id = ''report-'' @ show_nat now,
           totalImages = nImages,
           totalBatches = length batches,
           completedBatches = length completed,
           failedBatches = length failed,
           overallFindings =
             (if length allFindings > 0
              then summarySentence nImages (length completed) @ join batchSeparator allFindings
              else noFindingsMessage),
           detailedFindings = map result completed,
           report_recommendations = allRecommendations,
           report_confidence =
             (if length completed > 0 then ''Standard diagnostic analysis''
              else ''Limited due to processing errors''),
           processingStartTime = startT,
           processingEndTime = Some endT,
           report_status = (if length failed = length batches then ReportError else ReportCompleted) \<rparr>)"

text \<open>
  A batch as the scheduler leaves it at the end of a run: in error, or completed and carrying
  the parsed result, whose Findings and Recommendations are never empty.
\<close>

definition terminalBatch :: "ImageBatch \<Rightarrow> bool" where
  "terminalBatch b =
     (case batch_status b of
        Error \<Rightarrow> True
      | Completed \<Rightarrow>
          (case result b of
             None \<Rightarrow> False
           | Some r \<Rightarrow> findings r \<noteq> [] \<and> recommendations r \<noteq> [])
      | _ \<Rightarrow> False)"

text \<open>Example batches for the concrete instances below.\<close>

definition completedExample :: "string \<Rightarrow> string \<Rightarrow> string \<Rightarrow> ImageBatch" where
  "completedExample bid f r =
     \<lparr> batch_id = bid, images = [], batch_status = Completed,
       result = Some \<lparr> batchId = bid, imageCount = 20, findings = f, recommendations = r,
                       confidence = ''Standard diagnostic confidence'', technicalNotes = None,
                       processingTime = 5 \<rparr>,
       batch_error = None, startTime = Some 0, endTime = Some 5 \<rparr>"

definition erroredExample :: "string \<Rightarrow> ImageBatch" where
  "erroredExample bid =
     \<lparr> batch_id = bid, images = [], batch_status = Error, result = None,
       batch_error = Some ''API request failed: 500 Internal Server Error - '',
       startTime = Some 0, endTime = Some 5 \<rparr>"

section \<open>Scheduler: \<open>startAnalysis\<close> (the \<open>useUpload\<close> hook)\<close>

record BatchProcessingStatus =
  ps_totalBatches :: nat
  ps_completedBatches :: nat
  ps_failedBatches :: nat
  currentBatch :: "string option"
  overallProgress :: nat

text \<open>
  \<open>Math.round((k / tot) * 100)\<close> for counts \<open>k\<close> and \<open>tot > 0\<close>, in exact arithmetic:
  the integer nearest to \<open>100 k / tot\<close>, a half rounded up. The callback is only run for a
  batch of \<open>state.batches\<close>, so the divisor \<open>state.batches.length\<close> is positive when it is
  computed.

  The code computes the quotient and the product in IEEE doubles. The two agree for every
  total below 40, so for every run the upload limit allows (200 images, at most 10 batches);
  they differ where the exact value ends in one half and the double falls just below it,
  first at 23 of 40 (57 in the code, 58 here). What is proved of \<open>round_percent\<close> below is
  a statement about the code for totals below 40 only.
\<close>

definition round_percent :: "nat \<Rightarrow> nat \<Rightarrow> nat" where
  "round_percent k tot = (200 * k + tot) div (2 * tot)"

text \<open>
  Where the main coroutine of \<open>startAnalysis\<close> stands: in the admission loop at the head of
  the outer \<open>while\<close>; suspended in \<open>await Promise.race(activeBatches)\<close>; in the \<open>for\<close> loop
  that removes settled promises, before the check of index \<open>i - 1\<close> when at \<open>AtPoll i\<close>;
  or past the loop.
\<close>

datatype control = AtAdmit | AtRace | AtPoll nat | Finished

text \<open>
  The variables of one run. The batch objects are shared by reference between
  \<open>state.batches\<close>, \<open>batchQueue\<close>, the closures of \<open>processBatch\<close> and \<open>processedBatches\<close>;
  they are kept in one store, \<open>rs_batches\<close>, and referred to by position. A promise returned
  by \<open>processBatch(batch)\<close> is identified with the position of its batch.
\<close>

record run_state =
  rs_batches :: "ImageBatch list"
  batchQueue :: "nat list"
  activeBatches :: "nat list"
  processedBatches :: "nat list"
  completedCount :: nat
  failedCount :: nat
  processingStatus :: BatchProcessingStatus
  rs_report :: "ConsolidatedReport option"
  pc :: control

definition maxConcurrent :: nat where
  "maxConcurrent = 3"

text \<open>
  The state after the first \<open>setState\<close> of \<open>startAnalysis\<close> and the declarations before the
  loop, for the batches \<open>bs\<close> of \<open>state.batches\<close>.
\<close>

definition startState :: "ImageBatch list \<Rightarrow> run_state" where
  "startState bs =
     \<lparr> rs_batches = bs,
       batchQueue = [0..<length bs],
       activeBatches = [],
       processedBatches = [],
       completedCount = 0,
       failedCount = 0,
       processingStatus =
         \<lparr> ps_totalBatches = length bs, ps_completedBatches = 0, ps_failedBatches = 0,
           currentBatch = None, overallProgress = 0 \<rparr>,
       rs_report = None,
       pc = AtAdmit \<rparr>"

text \<open>
  \<open>processBatch(batch)\<close> up to its first \<open>await\<close>, which runs inside the call: the advisory
  \<open>currentBatch\<close> is set and the batch becomes \<open>processing\<close>. \<open>now\<close> is \<open>Date.now()\<close>.
\<close>

definition processBatch_start :: "nat \<Rightarrow> nat \<Rightarrow> run_state \<Rightarrow> run_state" where
  "processBatch_start i now s =
     s\<lparr> processingStatus := (processingStatus s)\<lparr> currentBatch := Some (batch_id (rs_batches s ! i)) \<rparr>,
        rs_batches := (rs_batches s)[i := (rs_batches s ! i)\<lparr> batch_status := Processing,
                                                         startTime := Some now \<rparr>] \<rparr>"

text \<open>
  What the awaited calls of \<open>processBatch\<close> deliver: \<open>prepareBatchForAPI\<close> throws, or
  \<open>analyzeImageBatch\<close> (which never throws) returns its response.
\<close>

datatype batch_outcome = PrepareFailed js_error | Analyzed AnalysisResponse

text \<open>
  The rest of \<open>processBatch(batch)\<close>, run when the awaited calls have delivered: the \<open>catch\<close>
  block for a thrown error, otherwise the remainder of the \<open>try\<close> block, which ends with the
  progress update. (The \<open>batches\<close> entry of that \<open>setState\<close> puts the same object back in
  place.)
\<close>

definition processBatch_finish :: "nat \<Rightarrow> batch_outcome \<Rightarrow> nat \<Rightarrow> run_state \<Rightarrow> run_state" where
  "processBatch_finish i outcome now s =
     (let batch = rs_batches s ! i in
      case outcome of
        PrepareFailed e \<Rightarrow>
          s\<lparr> rs_batches := (rs_batches s)[i := batch\<lparr> batch_status := Error,
                                                    batch_error := Some (err_message e),
                                                    endTime := Some now \<rparr>],
             failedCount := failedCount s + 1,
             processedBatches := processedBatches s @ [i] \<rparr>
      | Analyzed response \<Rightarrow>
          (let succeeded = (success response \<and> resp_result response \<noteq> None);
               batch' =
                 (if succeeded
                  then batch\<lparr> batch_status := Completed, result := resp_result response,
                              endTime := Some now \<rparr>
                  else batch\<lparr> batch_status := Error,
                              batch_error := Some (js_or (map_option api_message (resp_error response))
                                                     ''Analysis failed''),
                              endTime := Some now \<rparr>);
               cc = (if succeeded then completedCount s + 1 else completedCount s);
               fc = (if succeeded then failedCount s else failedCount s + 1);
               progress = round_percent (cc + fc) (length (rs_batches s))
           in s\<lparr> rs_batches := (rs_batches s)[i := batch'],
                 completedCount := cc,
                 failedCount := fc,
                 processedBatches := processedBatches s @ [i],
                 processingStatus := (processingStatus s)\<lparr> ps_completedBatches := cc,
                                                          ps_failedBatches := fc,
                                                          overallProgress := progress \<rparr> \<rparr>))"

text \<open>
  One turn of the admission loop: \<open>batchQueue.shift()\<close>, the call of \<open>processBatch\<close> and
  \<open>activeBatches.push\<close>.
\<close>

definition admitOne :: "nat \<Rightarrow> run_state \<Rightarrow> run_state" where
  "admitOne now s =
     (case batchQueue s of
        [] \<Rightarrow> s
      | i # q \<Rightarrow> (processBatch_start i now (s\<lparr> batchQueue := q \<rparr>))
                   \<lparr> activeBatches := activeBatches s @ [i] \<rparr>)"

text \<open>
  The promise of a batch is settled once \<open>processBatch\<close> has run to its end, which leaves the
  batch \<open>completed\<close> or in \<open>error\<close>.
\<close>

definition settled :: "run_state \<Rightarrow> nat \<Rightarrow> bool" where
  "settled s i = (batch_status (rs_batches s ! i) = Completed \<or> batch_status (rs_batches s ! i) = Error)"

text \<open>\<open>activeBatches.splice(k, 1)\<close>.\<close>

definition splice :: "nat \<Rightarrow> 'a list \<Rightarrow> 'a list" where
  "splice k xs = take k xs @ drop (Suc k) xs"

text \<open>
  After the loop: the report is generated from \<open>processedBatches\<close> and the last \<open>setState\<close>
  stores it and sets \<open>overallProgress\<close> to 100.
\<close>

definition finishRun :: "nat \<Rightarrow> nat \<Rightarrow> nat \<Rightarrow> nat \<Rightarrow> run_state \<Rightarrow> run_state" where
  "finishRun nImages startT endT now s =
     s\<lparr> rs_report := Some (generateConsolidatedReport
                             (map (\<lambda>i. rs_batches s ! i) (processedBatches s)) nImages startT endT now),
        processingStatus := (processingStatus s)\<lparr> currentBatch := None, overallProgress := 100 \<rparr>,
        pc := Finished \<rparr>"

text \<open>
  The steps of a run. JavaScript runs one piece of code at a time, to its next \<open>await\<close>,
  so the states other code can observe are those between such pieces. The main coroutine of
  \<open>startAnalysis\<close> moves by these rules:
  \<^item> \<open>admit\<close>: one turn of \<open>while (batchQueue.length > 0 && activeBatches.length <
    maxConcurrent)\<close>;
  \<^item> \<open>wait\<close>: the admission loop is left and, \<open>activeBatches\<close> not being empty, the coroutine
    suspends in \<open>await Promise.race(activeBatches)\<close>;
  \<^item> \<open>resume\<close>: the race returns, which takes a settled promise among the active ones, and
    the \<open>for\<close> loop starts at the last index;
  \<^item> \<open>remove\<close> and \<open>keep\<close>: one turn of the \<open>for\<close> loop; the race of the promise against the
    0 ms timer is won by the promise exactly when it is settled, and only then is it spliced
    out;
  \<^item> \<open>again\<close>: the \<open>for\<close> loop is done and control is back at the head of the outer \<open>while\<close>;
  \<^item> \<open>finish\<close>: queue and active list are empty, the outer loop is left, the report is built.
\<close>

inductive main_step :: "run_state \<Rightarrow> run_state \<Rightarrow> bool" where
  admit:
    "pc s = AtAdmit \<Longrightarrow> batchQueue s \<noteq> [] \<Longrightarrow> length (activeBatches s) < maxConcurrent
     \<Longrightarrow> main_step s (admitOne now s)"
| wait:
    "pc s = AtAdmit \<Longrightarrow> \<not> (batchQueue s \<noteq> [] \<and> length (activeBatches s) < maxConcurrent)
     \<Longrightarrow> activeBatches s \<noteq> []
     \<Longrightarrow> main_step s (s\<lparr> pc := AtRace \<rparr>)"
| finish:
    "pc s = AtAdmit \<Longrightarrow> batchQueue s = [] \<Longrightarrow> activeBatches s = []
     \<Longrightarrow> main_step s (finishRun nImages startT endT now s)"
| resume:
    "pc s = AtRace \<Longrightarrow> \<exists>i \<in> set (activeBatches s). settled s i
     \<Longrightarrow> main_step s (s\<lparr> pc := AtPoll (length (activeBatches s)) \<rparr>)"
| remove:
    "pc s = AtPoll (Suc k) \<Longrightarrow> settled s (activeBatches s ! k)
     \<Longrightarrow> main_step s (s\<lparr> activeBatches := splice k (activeBatches s), pc := AtPoll k \<rparr>)"
| keep:
    "pc s = AtPoll (Suc k) \<Longrightarrow> \<not> settled s (activeBatches s ! k)
     \<Longrightarrow> main_step s (s\<lparr> pc := AtPoll k \<rparr>)"
| again:
    "pc s = AtPoll 0 \<Longrightarrow> main_step s (s\<lparr> pc := AtAdmit \<rparr>)"

text \<open>
  While the main coroutine is suspended in one of its \<open>await\<close>s, the awaited calls of a batch
  in flight may deliver, and \<open>processBatch\<close> runs to its end.
\<close>

inductive settle_step :: "run_state \<Rightarrow> run_state \<Rightarrow> bool" where
  settle:
    "pc s = AtRace \<or> (\<exists>k. pc s = AtPoll (Suc k)) \<Longrightarrow> i \<in> set (activeBatches s)
     \<Longrightarrow> batch_status (rs_batches s ! i) = Processing
     \<Longrightarrow> settle_step s (processBatch_finish i outcome now s)"

inductive sched_step :: "run_state \<Rightarrow> run_state \<Rightarrow> bool" where
  main: "main_step s s' \<Longrightarrow> sched_step s s'"
| env: "settle_step s s' \<Longrightarrow> sched_step s s'"

text \<open>The states of the runs over the batches \<open>bs\<close>, all of them pending at the start.\<close>

definition reachable :: "ImageBatch list \<Rightarrow> run_state \<Rightarrow> bool" where
  "reachable bs s = sched_step\<^sup>*\<^sup>* (startState bs) s"

text \<open>The number of batches in the \<open>processing\<close> state.\<close>

definition processingCount :: "run_state \<Rightarrow> nat" where
  "processingCount s = length (filter (\<lambda>b. batch_status b = Processing) (rs_batches s))"

text \<open>
  The invariant of the runs over \<open>n\<close> batches: the queue and the active promises hold
  distinct positions; a batch in the \<open>processing\<close> state has its promise among the active
  ones; the batch of an active promise is in flight or processed; every batch is queued, active or
  processed, and a processed batch is settled and no longer queued; at most \<open>maxConcurrent\<close> promises are active;
  and the main coroutine waits in \<open>Promise.race\<close> only with an active promise, and with a
  non-empty queue only when all slots are taken.
\<close>

definition sched_inv :: "nat \<Rightarrow> run_state \<Rightarrow> bool" where
  "sched_inv n s \<longleftrightarrow>
     length (rs_batches s) = n
     \<and> distinct (batchQueue s @ activeBatches s)
     \<and> (\<forall>i \<in> set (batchQueue s @ activeBatches s). i < n)
     \<and> (\<forall>i < n. batch_status (rs_batches s ! i) = Processing \<longrightarrow> i \<in> set (activeBatches s))
     \<and> (\<forall>i \<in> set (activeBatches s).
           batch_status (rs_batches s ! i) = Processing \<or> i \<in> set (processedBatches s))
     \<and> (\<forall>i < n. i \<in> set (batchQueue s) \<or> i \<in> set (activeBatches s) \<or> i \<in> set (processedBatches s))
     \<and> (\<forall>i \<in> set (processedBatches s). i < n \<and> settled s i \<and> i \<notin> set (batchQueue s))
     \<and> length (activeBatches s) \<le> maxConcurrent
     \<and> (\<forall>k. pc s = AtPoll k \<longrightarrow> k \<le> length (activeBatches s))
     \<and> (pc s = AtRace \<longrightarrow>
           activeBatches s \<noteq> [] \<and> (batchQueue s = [] \<or> length (activeBatches s) = maxConcurrent))
     \<and> (pc s = Finished \<longrightarrow> batchQueue s = [] \<and> activeBatches s = [])"

text \<open>
  A bound on the number of steps a run can still take: every step lowers it. \<open>inFlight\<close>
  counts the active promises whose batch is still \<open>processing\<close>.
\<close>

definition inFlight :: "run_state \<Rightarrow> nat" where
  "inFlight s =
     length (filter (\<lambda>i. batch_status (rs_batches s ! i) = Processing) (activeBatches s))"

definition run_measure :: "run_state \<Rightarrow> nat" where
  "run_measure s =
     11 * (3 * length (batchQueue s) + length (activeBatches s) + inFlight s)
     + (case pc s of
          Finished \<Rightarrow> 0
        | AtRace \<Rightarrow> length (activeBatches s) + 1
        | AtAdmit \<Rightarrow> length (activeBatches s) + 2
        | AtPoll k \<Rightarrow>
            if list_ex (settled s) (take k (activeBatches s)) then k
            else length (activeBatches s) + 3 + k)"

definition pendingExample :: "string \<Rightarrow> ImageBatch" where
  "pendingExample bid =
     \<lparr> batch_id = bid, images = [], batch_status = Pending, result = None, batch_error = None,
       startTime = None, endTime = None \<rparr>"

text \<open>Example runs for the concrete instances below.\<close>

definition fourPending :: "ImageBatch list" where
  "fourPending =
     [pendingExample ''b1'', pendingExample ''b2'', pendingExample ''b3'', pendingExample ''b4'']"

definition waitingExample :: run_state where
  "waitingExample =
     (admitOne 30 (admitOne 20 (admitOne 10 (startState fourPending))))\<lparr> pc := AtRace \<rparr>"

definition exampleResponse :: AnalysisResponse where
  "exampleResponse =
     \<lparr> success = True,
       resp_result = Some \<lparr> batchId = ''b1'', imageCount = 20, findings = ''A'',
                            recommendations = ''RA'', confidence = ''Standard diagnostic confidence'',
                            technicalNotes = None, processingTime = 60 \<rparr>,
       resp_error = None \<rparr>"

definition settledExample :: run_state where
  "settledExample =
     processBatch_finish 0 (Analyzed exampleResponse) 70
       ((admitOne 10 (startState [pendingExample ''b1'']))\<lparr> pc := AtRace \<rparr>)"

definition finishedExample :: run_state where
  "finishedExample =
     finishRun 20 0 90 95
       (settledExample\<lparr> activeBatches := splice 0 (activeBatches settledExample), pc := AtAdmit \<rparr>)"

section \<open>Partitioner: properties\<close>

lemma chunks_concat: "0 < n \<Longrightarrow> concat (chunks n xs) = xs"
proof (induction n xs rule: chunks.induct)
  case (1 n)
  show ?case by simp
next
  case (2 n x xs)
  have "take n (x # xs) @ drop (n - 1) xs = x # xs"
    using 2(2) by (cases n) auto
  with 2 show ?case by simp
qed

lemma chunks_length: "0 < n \<Longrightarrow> length (chunks n xs) = (length xs + n - 1) div n"
proof (induction n xs rule: chunks.induct)
  case (1 n)
  then show ?case by simp
next
  case (2 n x xs)
  show ?case
  proof (cases "n - 1 \<le> length xs")
    case True
    define k where "k = length xs - (n - 1) + n - 1"
    have g: "(k + n) div n = Suc (k div n)"
      using 2(2) by (simp add: div_add_self2)
    have "length xs + n = k + n"
      using True 2(2) by (simp add: k_def)
    then have "(length xs + n) div n = Suc (k div n)"
      using g by simp
    moreover have "length (chunks n (drop (n - 1) xs)) = k div n"
      using 2 by (simp add: k_def)
    ultimately show ?thesis
      by simp
  next
    case False
    then have "length xs + n < n + n" "n \<le> length xs + n"
      by arith+
    then have "(length xs + n) div n = 1"
      by (intro div_nat_eqI) simp_all
    with 2 False show ?thesis by simp
  qed
qed

lemma chunks_le: "0 < n \<Longrightarrow> c \<in> set (chunks n xs) \<Longrightarrow> length c \<le> n \<and> c \<noteq> []"
  by (induction n xs rule: chunks.induct) auto

lemma chunks_full:
  "0 < n \<Longrightarrow> Suc k < length (chunks n xs) \<Longrightarrow> length (chunks n xs ! k) = n"
proof (induction n xs arbitrary: k rule: chunks.induct)
  case (1 n)
  then show ?case by simp
next
  case (2 n x xs)
  show ?case
  proof (cases k)
    case 0
    have "chunks n (drop (n - 1) xs) \<noteq> []"
      using 2(3) 0 by auto
    then have "drop (n - 1) xs \<noteq> []"
      by auto
    then have "n - 1 < length xs"
      by simp
    then show ?thesis
      using 0 2(2) by simp
  next
    case (Suc j)
    then show ?thesis
      using 2 by simp
  qed
qed

text \<open>
  For a positive batch size the loop returns: from index \<open>i\<close> on it appends one batch per run
  of \<open>n\<close> remaining images.
\<close>

lemma createBatches_loop_chunks:
  assumes "0 < n"
  shows "\<exists>bs. createBatches_loop now v n i acc = Some (acc @ bs)
              \<and> map images bs = chunks n (drop i v)"
  using assms
proof (induction "length v - i" arbitrary: i acc rule: less_induct)
  case less
  show ?case
  proof (cases "i < length v")
    case False
    then show ?thesis
      by (subst createBatches_loop.simps) simp
  next
    case True
    define b where "b = \<lparr> batch_id = ''batch-'' @ show_nat (i div n + 1) @ ''-'' @ show_nat (now (length acc)),
               images = slice v i (i + n),
               batch_status = Pending, result = None, batch_error = None,
               startTime = None, endTime = None \<rparr>"
    from True obtain x xs where dv: "drop i v = x # xs"
      by (cases "drop i v") auto
    have lt: "length v - (i + n) < length v - i"
      using True less.prems by arith
    from less.hyps[OF lt less.prems] obtain bs where
      bs: "createBatches_loop now v n (i + n) (acc @ [b]) = Some ((acc @ [b]) @ bs)"
      and m: "map images bs = chunks n (drop (i + n) v)"
      by blast
    have d: "drop (n - 1) xs = drop (i + n) v"
    proof -
      have "drop (i + n) v = drop n (drop i v)"
        by (simp add: add.commute)
      also have "\<dots> = drop (n - 1) xs"
        using dv less.prems by (cases n) auto
      finally show ?thesis by simp
    qed
    have "createBatches_loop now v n i acc = Some (acc @ (b # bs))"
      by (subst createBatches_loop.simps) (use True bs in \<open>simp add: b_def\<close>)
    moreover have "map images (b # bs) = chunks n (drop i v)"
      using m dv d by (simp add: b_def slice_def)
    ultimately show ?thesis
      by blast
  qed
qed

text \<open>
  Claim C1. For every ordered list of \<open>M\<close> valid (non-error) images and the default capacity
  \<open>N = 20\<close>, \<open>createBatches\<close> returns \<open>\<lceil>M / N\<rceil>\<close> batches; every batch holds at most \<open>N\<close>
  images; every batch except possibly the last holds exactly \<open>N\<close>; the batches' image lists
  concatenated in order are the original list; and the empty list yields no batch.
\<close>

theorem createBatches_partition:
  assumes "\<forall>img \<in> set imgs. img_status img \<noteq> Error"
  shows "\<exists>bs. createBatches now imgs (batchSize DEFAULT_CONFIG) = Some bs
            \<and> length bs = (length imgs + 19) div 20
            \<and> (\<forall>b \<in> set bs. length (images b) \<le> 20)
            \<and> (\<forall>k. Suc k < length bs \<longrightarrow> length (images (bs ! k)) = 20)
            \<and> concat (map images bs) = imgs
            \<and> (imgs = [] \<longrightarrow> bs = [])"
proof -
  have valid: "filter (\<lambda>img. img_status img \<noteq> Error) imgs = imgs"
    using assms by (simp add: filter_id_conv)
  from createBatches_loop_chunks[of 20 now imgs 0 "[]"] obtain bs where
    run: "createBatches_loop now imgs 20 0 [] = Some bs"
    and m: "map images bs = chunks 20 imgs"
    by auto
  have len: "length bs = length (chunks 20 imgs)"
    using m by (metis length_map)
  have "length bs = (length imgs + 19) div 20"
    using len chunks_length[of 20 imgs] by simp
  moreover have "\<forall>b \<in> set bs. length (images b) \<le> 20"
  proof
    fix b assume "b \<in> set bs"
    then have "images b \<in> set (chunks 20 imgs)"
      using m by (metis image_eqI set_map)
    then show "length (images b) \<le> 20"
      using chunks_le[of 20 "images b" imgs] by simp
  qed
  moreover have "\<forall>k. Suc k < length bs \<longrightarrow> length (images (bs ! k)) = 20"
  proof (intro allI impI)
    fix k assume k: "Suc k < length bs"
    then have "images (bs ! k) = chunks 20 imgs ! k"
      using m by (metis Suc_lessD nth_map)
    then show "length (images (bs ! k)) = 20"
      using k len chunks_full[of 20 k imgs] by simp
  qed
  moreover have "concat (map images bs) = imgs"
    using m chunks_concat[of 20 imgs] by simp
  moreover have "imgs = [] \<longrightarrow> bs = []"
    using len by auto
  ultimately show ?thesis
    using run valid by (simp add: createBatches_def DEFAULT_CONFIG_def)
qed

text \<open>
  The theorem at 21 valid images (two batches, of 20 and of 1 image) and at the empty list.
\<close>

theorem createBatches_partition_witness:
  "list_all (\<lambda>img. img_status img \<noteq> Error)
     (replicate 21 \<lparr> img_id = ''a'', file_obj = 0, preview = '''', img_size = 1,
        img_type = ''image/png'', img_name = ''a.png'', img_status = Pending,
        img_error = None \<rparr>)
   \<and> (\<exists>bs. createBatches (\<lambda>k. 0) (replicate 21 \<lparr> img_id = ''a'', file_obj = 0, preview = '''',
          img_size = 1, img_type = ''image/png'', img_name = ''a.png'', img_status = Pending,
          img_error = None \<rparr>) (batchSize DEFAULT_CONFIG) = Some bs
        \<and> length bs = 2
        \<and> length (images (bs ! 0)) = 20
        \<and> length (images (bs ! 1)) \<le> 20
        \<and> concat (map images bs) = replicate 21 \<lparr> img_id = ''a'', file_obj = 0, preview = '''',
          img_size = 1, img_type = ''image/png'', img_name = ''a.png'', img_status = Pending,
          img_error = None \<rparr>)
   \<and> createBatches (\<lambda>k. 0) [] (batchSize DEFAULT_CONFIG) = Some []"
proof -
  let ?x = "\<lparr> img_id = ''a'', file_obj = 0, preview = '''', img_size = 1,
        img_type = ''image/png'', img_name = ''a.png'', img_status = Pending,
        img_error = None \<rparr>"
  have h: "\<forall>img \<in> set (replicate 21 ?x). img_status img \<noteq> Error"
    by simp
  from createBatches_partition[OF h, of "\<lambda>k. 0"] obtain bs where
    bs: "createBatches (\<lambda>k. 0) (replicate 21 ?x) (batchSize DEFAULT_CONFIG) = Some bs"
    "length bs = (length (replicate 21 ?x) + 19) div 20"
    "\<forall>b \<in> set bs. length (images b) \<le> 20"
    "\<forall>k. Suc k < length bs \<longrightarrow> length (images (bs ! k)) = 20"
    "concat (map images bs) = replicate 21 ?x"
    by blast
  have l2: "length bs = 2"
    using bs(2) by simp
  have "length (images (bs ! 0)) = 20"
    using bs(4) l2 by simp
  moreover have "length (images (bs ! 1)) \<le> 20"
    using bs(3) l2 by simp
  moreover have "list_all (\<lambda>img. img_status img \<noteq> Error) (replicate 21 ?x)"
    using h by (simp add: list_all_iff)
  moreover have "createBatches (\<lambda>k. 0) [] (batchSize DEFAULT_CONFIG) = Some []"
    using createBatches_partition[of "[]" "\<lambda>k. 0"] by auto
  ultimately show ?thesis
    using bs(1,5) l2 by blast
qed

section \<open>AnalysisClient: retry budget and backoff\<close>

lemma makeAPIRequest_retry:
  assumes "attempt (fetch k) = Inl e" "isRetryableError e" "k < MAX_RETRIES"
  shows "makeAPIRequest fetch k =
           (Fetch k # Delay (2 ^ k * 1000) # fst (makeAPIRequest fetch (Suc k)),
            snd (makeAPIRequest fetch (Suc k)))"
  using assms by (subst makeAPIRequest.simps) (simp add: case_prod_beta)

lemma makeAPIRequest_give_up:
  assumes "attempt (fetch k) = Inl e" "\<not> (k < MAX_RETRIES \<and> isRetryableError e)"
  shows "makeAPIRequest fetch k = ([Fetch k], Inl e)"
  using assms by (subst makeAPIRequest.simps) auto

lemma makeAPIRequest_success:
  assumes "attempt (fetch k) = Inr v"
  shows "makeAPIRequest fetch k = ([Fetch k], Inr v)"
  using assms by (subst makeAPIRequest.simps) simp

text \<open>
  Entered at \<open>retryCount = k\<close> with every attempt failing retryably, the request goes through
  the remaining retry counts and throws the error of the attempt made at \<open>MAX_RETRIES\<close>.
\<close>

lemma makeAPIRequest_all_retryable:
  assumes "\<forall>j \<le> MAX_RETRIES. \<exists>e. attempt (fetch j) = Inl e \<and> isRetryableError e"
    "k \<le> MAX_RETRIES"
  shows "\<exists>e. attempt (fetch MAX_RETRIES) = Inl e
           \<and> makeAPIRequest fetch k =
               (concat (map (\<lambda>j. [Fetch j, Delay (2 ^ j * 1000)]) [k..<MAX_RETRIES])
                  @ [Fetch MAX_RETRIES], Inl e)"
  using assms(2)
proof (induction "MAX_RETRIES - k" arbitrary: k)
  case 0
  then have k: "k = MAX_RETRIES"
    by simp
  from assms(1) obtain e where e: "attempt (fetch MAX_RETRIES) = Inl e"
    by blast
  show ?case
    using makeAPIRequest_give_up[of fetch MAX_RETRIES e] e k by simp
next
  case (Suc n)
  then have lt: "k < MAX_RETRIES"
    by simp
  from assms(1) lt obtain e where e: "attempt (fetch k) = Inl e" "isRetryableError e"
    by (meson less_imp_le)
  have n: "n = MAX_RETRIES - Suc k"
    using Suc(2) by arith
  have le: "Suc k \<le> MAX_RETRIES"
    using lt by simp
  from Suc(1)[OF n le] obtain e' where
    e': "attempt (fetch MAX_RETRIES) = Inl e'"
    "makeAPIRequest fetch (Suc k) =
       (concat (map (\<lambda>j. [Fetch j, Delay (2 ^ j * 1000)]) [Suc k..<MAX_RETRIES])
          @ [Fetch MAX_RETRIES], Inl e')"
    by blast
  show ?case
    using makeAPIRequest_retry[of fetch k e] e e' lt by (simp add: upt_conv_Cons)
qed

text \<open>
  The retry budget and the backoff, for the errors \<open>isRetryableError\<close> accepts: when every
  attempt of a submission (those at retry counts 0 to \<open>MAX_RETRIES\<close>) fails with such an
  error, the client makes exactly \<open>MAX_RETRIES + 1 = 4\<close> attempts and then throws the error of
  the last one; before the retry that follows the attempt at retry count \<open>k\<close> it waits
  \<open>2 ^ k\<close> seconds, so the delays between the four attempts are 1 s, 2 s and 4 s.
\<close>

lemma makeAPIRequest_exhausts_retries:
  assumes "\<forall>k \<le> MAX_RETRIES. \<exists>e. attempt (fetch k) = Inl e \<and> isRetryableError e"
  shows "\<exists>e. attempt (fetch 3) = Inl e
            \<and> makeAPIRequest fetch 0 =
                ([Fetch 0, Delay 1000, Fetch 1, Delay 2000, Fetch 2, Delay 4000, Fetch 3], Inl e)
            \<and> length (filter (\<lambda>ev. case ev of Fetch k \<Rightarrow> True | Delay ms \<Rightarrow> False)
                 (fst (makeAPIRequest fetch 0))) = MAX_RETRIES + 1"
proof -
  from makeAPIRequest_all_retryable[OF assms, of 0] obtain e where
    e: "attempt (fetch MAX_RETRIES) = Inl e"
    "makeAPIRequest fetch 0 =
       (concat (map (\<lambda>j. [Fetch j, Delay (2 ^ j * 1000)]) [0..<MAX_RETRIES])
          @ [Fetch MAX_RETRIES], Inl e)"
    by auto
  have "concat (map (\<lambda>j. [Fetch j, Delay (2 ^ j * 1000)]) [0..<MAX_RETRIES]) @ [Fetch MAX_RETRIES]
          = [Fetch 0, Delay 1000, Fetch 1, Delay 2000, Fetch 2, Delay 4000, Fetch 3]"
    by (simp add: MAX_RETRIES_def upt_rec)
  with e show ?thesis
    by (simp add: MAX_RETRIES_def)
qed

text \<open>
  At a service that answers every request with HTTP 503 and a readable body.
\<close>

lemma makeAPIRequest_exhausts_retries_at_503:
  "makeAPIRequest
     (\<lambda>k. Responded \<lparr> ok = False, http_status = 503, statusText = ''Service Unavailable'',
                       text_body = Inr ''busy'', json_body = Inr (Inr []) \<rparr>) 0
   = ([Fetch 0, Delay 1000, Fetch 1, Delay 2000, Fetch 2, Delay 4000, Fetch 3],
      Inl \<lparr> err_name = ''Error'',
            err_message = ''API request failed: 503 Service Unavailable - busy'' \<rparr>)"
proof -
  let ?fetch = "\<lambda>k::nat. Responded \<lparr> ok = False, http_status = 503,
      statusText = ''Service Unavailable'', text_body = Inr ''busy'', json_body = Inr (Inr []) \<rparr>"
  have a: "\<And>k. attempt (?fetch k) = Inl \<lparr> err_name = ''Error'',
            err_message = ''API request failed: 503 Service Unavailable - busy'' \<rparr>"
    by (simp add: attempt_def show_nat.simps digit_def)
  have r: "isRetryableError \<lparr> err_name = ''Error'',
            err_message = ''API request failed: 503 Service Unavailable - busy'' \<rparr>"
    by (simp add: isRetryableError_def)
  have h: "\<forall>k \<le> MAX_RETRIES. \<exists>e. attempt (?fetch k) = Inl e \<and> isRetryableError e"
    using a r by simp
  from makeAPIRequest_exhausts_retries[OF h] show ?thesis
    using a by simp
qed

section \<open>ResponseParser: the heading matcher\<close>

text \<open>
  \<open>matchAtoms\<close> finds a match exactly when some prefix of the input is a word of the
  heading.
\<close>

lemma matchAtoms_sound:
  "matchAtoms as s = Some r \<Longrightarrow> \<exists>w. s = w @ r \<and> matchesExactly as w"
proof (induction as s rule: matchAtoms.induct)
  case (1 s)
  then show ?case by simp
next
  case (2 p as)
  then show ?case by simp
next
  case (3 p as c cs)
  then obtain w where "cs = w @ r" "matchesExactly as w" "canon c = canon p"
    by (auto split: if_splits)
  then have "c # cs = (c # w) @ r \<and> matchesExactly (Lit p # as) (c # w)"
    by simp
  then show ?case by blast
next
  case (4 as)
  then show ?case by simp
next
  case (5 as c cs)
  show ?case
  proof (cases "isLineTerminator c")
    case True
    with 5 obtain w where w: "c # cs = w @ r" "matchesExactly as w"
      by auto
    then have "matchesExactly (OptDot # as) w"
      by (cases w) auto
    with w show ?thesis by blast
  next
    case False
    show ?thesis
    proof (cases "matchAtoms as cs")
      case None
      with 5 False obtain w where w: "c # cs = w @ r" "matchesExactly as w"
        by auto
      then have "matchesExactly (OptDot # as) w"
        by (cases w) auto
      with w show ?thesis by blast
    next
      case (Some r')
      with 5 False obtain w where w: "cs = w @ r" "matchesExactly as w"
        by auto
      then have "c # cs = (c # w) @ r \<and> matchesExactly (OptDot # as) (c # w)"
        using False by simp
      then show ?thesis by blast
    qed
  qed
qed

lemma matchAtoms_complete:
  "matchesExactly as w \<Longrightarrow> matchAtoms as (w @ r) \<noteq> None"
proof (induction as w rule: matchesExactly.induct)
  case (1 w)
  then show ?case by simp
next
  case (2 p as)
  then show ?case by simp
next
  case (3 p as c cs)
  then show ?case by simp
next
  case (4 as)
  then show ?case by (cases r) (auto split: option.splits)
next
  case (5 as c cs)
  then show ?case by (auto split: option.splits)
qed

lemma canon_colon: "canon c = canon CHR '':'' \<longleftrightarrow> c = CHR '':''"
  by (auto simp: canon_def split: option.splits dest!: map_of_SomeD)

lemma matchesExactly_snoc:
  "matchesExactly (h @ [Lit p]) w \<longleftrightarrow> (\<exists>w' c. w = w' @ [c] \<and> canon c = canon p \<and> matchesExactly h w')"
proof (induction h w rule: matchesExactly.induct)
  case (1 w)
  show ?case
  proof (cases w)
    case Nil
    then show ?thesis by simp
  next
    case (Cons c cs)
    then show ?thesis by (cases cs) auto
  qed
next
  case (2 p as)
  then show ?case by simp
next
  case (3 q as c cs)
  have "(\<exists>w' c'. c # cs = w' @ [c'] \<and> canon c' = canon p \<and> matchesExactly (Lit q # as) w')
     \<longleftrightarrow> (canon c = canon q \<and> (\<exists>w' c'. cs = w' @ [c'] \<and> canon c' = canon p \<and> matchesExactly as w'))"
    (is "?L \<longleftrightarrow> ?R")
  proof
    assume ?L
    then obtain w' c' where w: "c # cs = w' @ [c']" "canon c' = canon p" "matchesExactly (Lit q # as) w'"
      by blast
    then obtain w'' where "w' = c # w''"
      by (cases w') auto
    with w show ?R by auto
  next
    assume ?R
    then obtain w' c' where "cs = w' @ [c']" "canon c' = canon p" "matchesExactly as w'" "canon c = canon q"
      by blast
    then have "c # cs = (c # w') @ [c'] \<and> canon c' = canon p \<and> matchesExactly (Lit q # as) (c # w')"
      by simp
    then show ?L by blast
  qed
  with 3 show ?case by simp
next
  case (4 as)
  then show ?case by simp
next
  case (5 as c cs)
  have "(\<exists>w' c'. c # cs = w' @ [c'] \<and> canon c' = canon p \<and> matchesExactly (OptDot # as) w')
     \<longleftrightarrow> ((\<exists>w' c'. c # cs = w' @ [c'] \<and> canon c' = canon p \<and> matchesExactly as w')
          \<or> (\<not> isLineTerminator c \<and> (\<exists>w' c'. cs = w' @ [c'] \<and> canon c' = canon p \<and> matchesExactly as w')))"
    (is "?L \<longleftrightarrow> ?R")
  proof
    assume ?L
    then obtain w' c' where w: "c # cs = w' @ [c']" "canon c' = canon p" "matchesExactly (OptDot # as) w'"
      by blast
    show ?R
    proof (cases w')
      case Nil
      with w show ?thesis by auto
    next
      case (Cons d ds)
      with w have "d = c" "cs = ds @ [c']" by auto
      with w Cons show ?thesis by auto
    qed
  next
    assume ?R
    then show ?L
    proof
      assume "\<exists>w' c'. c # cs = w' @ [c'] \<and> canon c' = canon p \<and> matchesExactly as w'"
      then obtain w' c' where w: "c # cs = w' @ [c']" "canon c' = canon p" "matchesExactly as w'"
        by blast
      then have "matchesExactly (OptDot # as) w'"
        by (cases w') auto
      with w show ?L by blast
    next
      assume "\<not> isLineTerminator c \<and> (\<exists>w' c'. cs = w' @ [c'] \<and> canon c' = canon p \<and> matchesExactly as w')"
      then obtain w' c' where w: "cs = w' @ [c']" "canon c' = canon p" "matchesExactly as w'" "\<not> isLineTerminator c"
        by blast
      then have "c # cs = (c # w') @ [c'] \<and> canon c' = canon p \<and> matchesExactly (OptDot # as) (c # w')"
        by simp
      then show ?L by blast
    qed
  qed
  with 5 show ?case by simp
qed

lemma matchHeading_Some:
  "matchHeading hs s = Some r \<Longrightarrow> \<exists>h \<in> set hs. matchAtoms (h @ [Lit CHR '':'']) s = Some r"
  by (induction hs) (auto split: option.splits)

lemma matchHeading_None:
  "matchHeading hs s = None \<longleftrightarrow> (\<forall>h \<in> set hs. matchAtoms (h @ [Lit CHR '':'']) s = None)"
  by (induction hs) (auto split: option.splits)

lemma keywordColonAt_iff:
  "keywordColonAt h s \<longleftrightarrow> matchAtoms (h @ [Lit CHR '':'']) s \<noteq> None"
proof
  assume "keywordColonAt h s"
  then obtain n where n: "n < length s" "matchesExactly h (take n s)" "s ! n = CHR '':''"
    by (auto simp: keywordColonAt_def list_ex_iff)
  then have "matchesExactly (h @ [Lit CHR '':'']) (take n s @ [CHR '':''])"
    by (auto simp: matchesExactly_snoc)
  then have "matchAtoms (h @ [Lit CHR '':'']) ((take n s @ [CHR '':'']) @ drop (Suc n) s) \<noteq> None"
    by (rule matchAtoms_complete)
  moreover have "(take n s @ [CHR '':'']) @ drop (Suc n) s = s"
    using n(1,3) by (metis append.assoc append_Cons append_Nil id_take_nth_drop)
  ultimately show "matchAtoms (h @ [Lit CHR '':'']) s \<noteq> None"
    by simp
next
  assume "matchAtoms (h @ [Lit CHR '':'']) s \<noteq> None"
  then obtain r where "matchAtoms (h @ [Lit CHR '':'']) s = Some r"
    by auto
  then obtain u where u: "s = u @ r" "matchesExactly (h @ [Lit CHR '':'']) u"
    using matchAtoms_sound by blast
  then obtain w c where w: "u = w @ [c]" "canon c = canon CHR '':''" "matchesExactly h w"
    by (auto simp: matchesExactly_snoc)
  then have c: "c = CHR '':''"
    by (simp add: canon_colon)
  have "length w < length s" "take (length w) s = w" "s ! length w = CHR '':''"
    using u(1) w(1) c by auto
  then have "length w \<in> set [0..<length s] \<and> matchesExactly h (take (length w) s) \<and> s ! length w = CHR '':''"
    using w(3) by simp
  then show "keywordColonAt h s"
    unfolding keywordColonAt_def list_ex_iff by blast
qed

lemma matchHeading_iff:
  "matchHeading hs s \<noteq> None \<longleftrightarrow> list_ex (\<lambda>h. keywordColonAt h s) hs"
  by (simp add: matchHeading_None list_ex_iff keywordColonAt_iff)

lemma headingIn_iff: "headingIn p text \<longleftrightarrow> colonHeadingIn p text"
  unfolding headingIn_def colonHeadingIn_def matchHeading_iff ..

lemma matchAtoms_snoc_Nil: "matchAtoms (h @ [Lit c]) [] = None"
proof (induction h)
  case Nil
  show ?case by simp
next
  case (Cons a h)
  then show ?case by (cases a) simp_all
qed

lemma headingIn_Cons:
  "headingIn p (c # cs) \<longleftrightarrow> matchHeading (headings p) (c # cs) \<noteq> None \<or> headingIn p cs"
proof -
  have eq: "headingIn p t \<longleftrightarrow> (\<exists>i < length t. matchHeading (headings p) (drop i t) \<noteq> None)" for t
    by (auto simp: headingIn_def list_ex_iff)
  have "(\<exists>i < length (c # cs). matchHeading (headings p) (drop i (c # cs)) \<noteq> None)
      \<longleftrightarrow> (matchHeading (headings p) (c # cs) \<noteq> None
           \<or> (\<exists>i < length cs. matchHeading (headings p) (drop i cs) \<noteq> None))"
    (is "?L \<longleftrightarrow> ?R")
  proof
    assume ?L
    then obtain i where i: "i < Suc (length cs)" "matchHeading (headings p) (drop i (c # cs)) \<noteq> None"
      by auto
    show ?R
    proof (cases i)
      case 0
      with i show ?thesis by simp
    next
      case (Suc j)
      with i have j: "j \<le> length cs" "matchHeading (headings p) (drop j cs) \<noteq> None" by auto
      have "j \<noteq> length cs"
      proof
        assume "j = length cs"
        then have "matchHeading (headings p) [] \<noteq> None" using j(2) by simp
        then show False
          by (simp add: matchHeading_None matchAtoms_snoc_Nil)
      qed
      with j show ?thesis by auto
    qed
  next
    assume ?R
    then show ?L
    proof
      assume "matchHeading (headings p) (c # cs) \<noteq> None"
      then have "0 < length (c # cs) \<and> matchHeading (headings p) (drop 0 (c # cs)) \<noteq> None"
        by simp
      then show ?L by blast
    next
      assume "\<exists>i < length cs. matchHeading (headings p) (drop i cs) \<noteq> None"
      then obtain i where "i < length cs" "matchHeading (headings p) (drop i cs) \<noteq> None"
        by blast
      then have "Suc i < length (c # cs) \<and> matchHeading (headings p) (drop (Suc i) (c # cs)) \<noteq> None"
        by simp
      then show ?L by blast
    qed
  qed
  then show ?thesis
    unfolding eq .
qed

lemma matchAll_no_heading: "\<not> headingIn p s \<Longrightarrow> matchAll p s = []"
  by (induction s) (auto simp: headingIn_Cons matchAt_def)

lemma extractSection_no_heading: "\<not> headingIn p text \<Longrightarrow> extractSection p text = None"
  by (simp add: extractSection_def str_match_def matchAll_no_heading)

lemma js_or_nonempty: "b \<noteq> [] \<Longrightarrow> js_or a b \<noteq> []"
  by (simp add: js_or_def split: option.splits)

section \<open>ResponseParser: claims\<close>

text \<open>
  Claim C4. The claim: headings are recognized case-insensitively per the fixed mapping, the
  first matching heading of a field wins, and the field's content is exactly the text
  between its heading and the next recognized heading or the end of the text.

  The code does not do this. The expressions carry the \<open>g\<close> flag, so \<open>text.match\<close> returns
  the array of complete matches and \<open>match[1]\<close> is the second complete match, not the
  captured body. At a text with one Findings heading and one Recommendations heading each
  expression matches once, \<open>match[1]\<close> is \<open>undefined\<close>, no field is set and Findings falls back
  to the raw text; with two matches of the Findings expression the field is the second
  complete match, its heading included.
\<close>

theorem extractSections_takes_second_match:
  "matchAll findingsPattern ''FINDINGS: clear. RECOMMENDATIONS: none.'' = [''FINDINGS: clear. '']
   \<and> extractSections ''FINDINGS: clear. RECOMMENDATIONS: none.''
       = \<lparr> sec_findings = None, sec_recommendations = None, sec_confidence = None,
           sec_technicalNotes = None \<rparr>
   \<and> findings (parseAnalysisResponse ''FINDINGS: clear. RECOMMENDATIONS: none.'' ''b1'' 2 0)
       = ''FINDINGS: clear. RECOMMENDATIONS: none....''
   \<and> extractSection findingsPattern ''FINDINGS: a RECOMMENDATIONS: b FINDINGS: c''
       = Some ''FINDINGS: c''"
  by code_simp

text \<open>
  Claim C5. The parser is total: for every input string, the empty one included, it returns a
  result whose Findings field is not empty. When no Findings heading is recognized in the
  text, Findings is the first 1000 characters of the text followed by \<open>...\<close>; when no
  Recommendations heading is recognized, Recommendations is a fixed placeholder; when no
  Confidence heading is recognized, Confidence is a fixed default label; when no
  TechnicalNotes heading is recognized, that field is absent.
\<close>

theorem parseAnalysisResponse_total:
  "findings (parseAnalysisResponse analysisText b n t) \<noteq> []
   \<and> (\<not> headingIn findingsPattern analysisText \<longrightarrow>
        findings (parseAnalysisResponse analysisText b n t) = take 1000 analysisText @ ''...'')
   \<and> (\<not> headingIn recommendationsPattern analysisText \<longrightarrow>
        recommendations (parseAnalysisResponse analysisText b n t)
          = ''Please refer to detailed findings above.'')
   \<and> (\<not> headingIn confidencePattern analysisText \<longrightarrow>
        confidence (parseAnalysisResponse analysisText b n t) = ''Standard diagnostic confidence'')
   \<and> (\<not> headingIn technicalNotesPattern analysisText \<longrightarrow>
        technicalNotes (parseAnalysisResponse analysisText b n t) = None)"
  by (simp add: parseAnalysisResponse_def Let_def extractSections_def extractSection_no_heading
        js_or_nonempty)
     (simp add: js_or_def)

text \<open>
  The theorem at the empty string and at a text without any heading.
\<close>

theorem parseAnalysisResponse_total_witness:
  "\<not> headingIn findingsPattern ''Normal study.''
   \<and> \<not> headingIn recommendationsPattern ''Normal study.''
   \<and> \<not> headingIn confidencePattern ''Normal study.''
   \<and> \<not> headingIn technicalNotesPattern ''Normal study.''
   \<and> parseAnalysisResponse ''Normal study.'' ''batch-1-0'' 3 10
       = \<lparr> batchId = ''batch-1-0'', imageCount = 3, findings = ''Normal study....'',
           recommendations = ''Please refer to detailed findings above.'',
           confidence = ''Standard diagnostic confidence'', technicalNotes = None,
           processingTime = 10 \<rparr>
   \<and> findings (parseAnalysisResponse '''' ''batch-1-0'' 3 10) = ''...''"
proof -
  have h: "\<not> headingIn findingsPattern ''Normal study.''"
    "\<not> headingIn recommendationsPattern ''Normal study.''"
    "\<not> headingIn confidencePattern ''Normal study.''"
    "\<not> headingIn technicalNotesPattern ''Normal study.''"
    by code_simp+
  have e: "\<not> headingIn findingsPattern ''''"
    by (simp add: headingIn_def)
  have "batchId (parseAnalysisResponse ''Normal study.'' ''batch-1-0'' 3 10) = ''batch-1-0''"
    "imageCount (parseAnalysisResponse ''Normal study.'' ''batch-1-0'' 3 10) = 3"
    "processingTime (parseAnalysisResponse ''Normal study.'' ''batch-1-0'' 3 10) = 10"
    by (simp_all add: parseAnalysisResponse_def Let_def)
  moreover have "findings (parseAnalysisResponse ''Normal study.'' ''batch-1-0'' 3 10) = ''Normal study....''"
    "recommendations (parseAnalysisResponse ''Normal study.'' ''batch-1-0'' 3 10)
       = ''Please refer to detailed findings above.''"
    "confidence (parseAnalysisResponse ''Normal study.'' ''batch-1-0'' 3 10)
       = ''Standard diagnostic confidence''"
    "technicalNotes (parseAnalysisResponse ''Normal study.'' ''batch-1-0'' 3 10) = None"
    using parseAnalysisResponse_total[of "''Normal study.''" "''batch-1-0''" 3 10] h by simp_all
  moreover have "findings (parseAnalysisResponse '''' ''batch-1-0'' 3 10) = ''...''"
    using parseAnalysisResponse_total[of "''''" "''batch-1-0''" 3 10] e by simp
  ultimately show ?thesis
    using h by (simp add: DiagnosticResult.equality)
qed

text \<open>
  Claim C10. A section heading is recognized only where a heading keyword is immediately
  followed by a colon: wherever the expression of a field matches, the input starts with one
  of the field's keywords and a colon. So in a text in which the keywords of a field occur
  only without a following colon, no occurrence starts a section: the field is not extracted
  and its fallback value is used (the TechnicalNotes field stays absent).
\<close>

theorem heading_requires_colon:
  "(matchAt p s \<noteq> None \<longrightarrow> list_ex (\<lambda>h. keywordColonAt h s) (headings p))
   \<and> (\<not> colonHeadingIn p analysisText \<longrightarrow>
        matchAll p analysisText = [] \<and> extractSection p analysisText = None)
   \<and> (\<not> colonHeadingIn findingsPattern analysisText \<longrightarrow>
        findings (parseAnalysisResponse analysisText b n t) = take 1000 analysisText @ ''...'')
   \<and> (\<not> colonHeadingIn recommendationsPattern analysisText \<longrightarrow>
        recommendations (parseAnalysisResponse analysisText b n t)
          = ''Please refer to detailed findings above.'')
   \<and> (\<not> colonHeadingIn confidencePattern analysisText \<longrightarrow>
        confidence (parseAnalysisResponse analysisText b n t) = ''Standard diagnostic confidence'')
   \<and> (\<not> colonHeadingIn technicalNotesPattern analysisText \<longrightarrow>
        technicalNotes (parseAnalysisResponse analysisText b n t) = None)"
proof -
  have "matchAt p s \<noteq> None \<longrightarrow> list_ex (\<lambda>h. keywordColonAt h s) (headings p)"
    using matchHeading_iff[of "headings p" s] by (auto simp: matchAt_def split: option.splits)
  moreover have "\<not> colonHeadingIn q analysisText \<longrightarrow>
      matchAll q analysisText = [] \<and> extractSection q analysisText = None" for q
    by (simp add: headingIn_iff[symmetric] matchAll_no_heading extractSection_no_heading)
  ultimately show ?thesis
    by (simp add: parseAnalysisResponse_def Let_def extractSections_def js_or_def)
qed

text \<open>
  The theorem at \<open>FINDINGS ok\<close>, where the keyword stands without a colon, and at
  \<open>Findings: ok\<close>, where the expression matches.
\<close>

theorem heading_requires_colon_witness:
  "matchesExactly (lits ''FINDINGS'') (take 8 ''FINDINGS ok'')
   \<and> \<not> colonHeadingIn findingsPattern ''FINDINGS ok''
   \<and> \<not> colonHeadingIn recommendationsPattern ''FINDINGS ok''
   \<and> \<not> colonHeadingIn confidencePattern ''FINDINGS ok''
   \<and> \<not> colonHeadingIn technicalNotesPattern ''FINDINGS ok''
   \<and> matchAll findingsPattern ''FINDINGS ok'' = []
   \<and> findings (parseAnalysisResponse ''FINDINGS ok'' ''batch-1-0'' 1 5) = ''FINDINGS ok...''
   \<and> recommendations (parseAnalysisResponse ''FINDINGS ok'' ''batch-1-0'' 1 5)
       = ''Please refer to detailed findings above.''
   \<and> confidence (parseAnalysisResponse ''FINDINGS ok'' ''batch-1-0'' 1 5)
       = ''Standard diagnostic confidence''
   \<and> technicalNotes (parseAnalysisResponse ''FINDINGS ok'' ''batch-1-0'' 1 5) = None
   \<and> matchAt findingsPattern ''Findings: ok'' \<noteq> None
   \<and> list_ex (\<lambda>h. keywordColonAt h ''Findings: ok'') (headings findingsPattern)"
proof -
  have k: "matchesExactly (lits ''FINDINGS'') (take 8 ''FINDINGS ok'')"
    by code_simp
  have h: "\<not> colonHeadingIn findingsPattern ''FINDINGS ok''"
    "\<not> colonHeadingIn recommendationsPattern ''FINDINGS ok''"
    "\<not> colonHeadingIn confidencePattern ''FINDINGS ok''"
    "\<not> colonHeadingIn technicalNotesPattern ''FINDINGS ok''"
    by code_simp+
  have m: "matchAt findingsPattern ''Findings: ok'' \<noteq> None"
    by code_simp
  have "matchAll findingsPattern ''FINDINGS ok'' = []"
    using heading_requires_colon[of findingsPattern "''Findings: ok''" "''FINDINGS ok''"] h(1)
    by simp
  moreover have "findings (parseAnalysisResponse ''FINDINGS ok'' ''batch-1-0'' 1 5) = ''FINDINGS ok...''"
    "recommendations (parseAnalysisResponse ''FINDINGS ok'' ''batch-1-0'' 1 5)
       = ''Please refer to detailed findings above.''"
    "confidence (parseAnalysisResponse ''FINDINGS ok'' ''batch-1-0'' 1 5)
       = ''Standard diagnostic confidence''"
    "technicalNotes (parseAnalysisResponse ''FINDINGS ok'' ''batch-1-0'' 1 5) = None"
    using heading_requires_colon[of findingsPattern "''Findings: ok''" "''FINDINGS ok''"
        "''batch-1-0''" 1 5] h
    by simp_all
  moreover have "list_ex (\<lambda>h. keywordColonAt h ''Findings: ok'') (headings findingsPattern)"
    using heading_requires_colon[of findingsPattern "''Findings: ok''" "''FINDINGS ok''"] m
    by blast
  ultimately show ?thesis
    using k h m by simp
qed

section \<open>AnalysisClient: classification of failures\<close>

lemma str_includes_append: "str_includes (a @ p @ b) p"
proof (induction a)
  case Nil
  have "take (length p) (p @ b) = p"
    by simp
  then show ?case
    by (cases "p @ b") auto
next
  case (Cons x a)
  then show ?case by simp
qed

text \<open>A timeout, seen as the \<open>AbortError\<close> rejection of \<open>fetch\<close>, is never retried.\<close>

lemma timeout_not_retried:
  assumes "attempt (fetch k) = Inl e" "err_name e = ''AbortError''"
  shows "makeAPIRequest fetch k = ([Fetch k], Inl e)"
  using assms by (intro makeAPIRequest_give_up) (simp_all add: isRetryableError_def)

text \<open>An HTTP 429, 502 or 503 response is classified retryable.\<close>

lemma http_429_502_503_retryable:
  assumes "\<not> ok response" "http_status response \<in> {429, 502, 503}"
    "text_body response = Inr errorText"
  shows "\<exists>e. attempt (Responded response) = Inl e \<and> isRetryableError e"
proof -
  let ?msg = "''API request failed: '' @ show_nat (http_status response) @ '' ''
      @ statusText response @ '' - '' @ errorText"
  have a: "attempt (Responded response) = Inl \<lparr> err_name = ''Error'', err_message = ?msg \<rparr>"
    using assms(1,3) by (simp add: attempt_def)
  have "str_includes ?msg (show_nat (http_status response))"
    using str_includes_append[of "''API request failed: ''" "show_nat (http_status response)"]
    by simp
  moreover have "show_nat 429 = ''429''" "show_nat 502 = ''502''" "show_nat 503 = ''503''"
    by (simp_all add: show_nat.simps digit_def)
  then have "show_nat (http_status response) \<in> {''429'', ''502'', ''503''}"
    using assms(2) by auto
  ultimately have "isRetryableError \<lparr> err_name = ''Error'', err_message = ?msg \<rparr>"
    by (auto simp: isRetryableError_def)
  with a show ?thesis
    by blast
qed

text \<open>
  A response without textual content fails the submission after the request has returned:
  one attempt, no retry.
\<close>

lemma missing_content_not_retried:
  assumes "attempt (fetch 0) = Inr (Inr choices)" "choices = [] \<or> hd choices = None \<or> hd choices = Some []"
    "0 < length (req_images request)" "length (req_images request) \<le> 20"
  shows "analyzeImageBatch fetch request procTime =
           ([Fetch 0], analysisFailed \<lparr> err_name = ''Error'',
               err_message = ''No analysis content received from API'' \<rparr>)"
  using assms makeAPIRequest_success[of fetch 0 "Inr choices"]
  by (cases choices) (auto simp: analyzeImageBatch_def split: option.splits)

text \<open>An error thrown by the request is returned to the scheduler as a failed response.\<close>

lemma analyzeImageBatch_surfaces_error:
  assumes "makeAPIRequest fetch 0 = (tr, Inl e)"
    "0 < length (req_images request)" "length (req_images request) \<le> 20"
  shows "analyzeImageBatch fetch request procTime = (tr, analysisFailed e)"
  using assms by (simp add: analyzeImageBatch_def)

text \<open>
  Claim C3. The claim: a timeout is never retried; an HTTP 429, 502 or 503 response and any
  transport-level failure are retryable; every other failure ends the submission at once.

  The code classifies by the text of the error message (\<open>includes('429')\<close>, \<open>'502'\<close>, \<open>'503'\<close>,
  \<open>'network'\<close>). A transport-level failure is the rejection of \<open>fetch\<close> with the runtime's
  \<open>TypeError\<close>; with the message \<open>Failed to fetch\<close> it is not classified retryable and the
  submission ends after one attempt, against the comment \<open>// Network errors\<close> on that
  branch.
\<close>

theorem transport_failure_not_retried:
  "\<not> isRetryableError \<lparr> err_name = ''TypeError'', err_message = ''Failed to fetch'' \<rparr>
   \<and> makeAPIRequest (\<lambda>k. Rejected \<lparr> err_name = ''TypeError'', err_message = ''Failed to fetch'' \<rparr>) 0
       = ([Fetch 0], Inl \<lparr> err_name = ''TypeError'', err_message = ''Failed to fetch'' \<rparr>)"
proof -
  have n: "\<not> isRetryableError \<lparr> err_name = ''TypeError'', err_message = ''Failed to fetch'' \<rparr>"
    by (simp add: isRetryableError_def)
  have "attempt (Rejected \<lparr> err_name = ''TypeError'', err_message = ''Failed to fetch'' \<rparr>)
      = Inl \<lparr> err_name = ''TypeError'', err_message = ''Failed to fetch'' \<rparr>"
    by (simp add: attempt_def)
  then show ?thesis
    using n makeAPIRequest_give_up[of
        "\<lambda>k. Rejected \<lparr> err_name = ''TypeError'', err_message = ''Failed to fetch'' \<rparr>" 0
        "\<lparr> err_name = ''TypeError'', err_message = ''Failed to fetch'' \<rparr>"]
    by simp
qed

text \<open>
  The same classification retries a failure of another class whose message happens to
  contain one of the markers: an HTTP 400 response whose body mentions \<open>503\<close>.
\<close>

lemma http_400_mentioning_503_retried:
  "fst (makeAPIRequest
     (\<lambda>k. Responded \<lparr> ok = False, http_status = 400, statusText = ''Bad Request'',
                       text_body = Inr ''upstream 503'', json_body = Inr (Inr []) \<rparr>) 0)
   = [Fetch 0, Delay 1000, Fetch 1, Delay 2000, Fetch 2, Delay 4000, Fetch 3]"
proof -
  let ?fetch = "\<lambda>k::nat. Responded \<lparr> ok = False, http_status = 400,
      statusText = ''Bad Request'', text_body = Inr ''upstream 503'', json_body = Inr (Inr []) \<rparr>"
  have a: "\<And>k. attempt (?fetch k) = Inl \<lparr> err_name = ''Error'',
            err_message = ''API request failed: 400 Bad Request - upstream 503'' \<rparr>"
    by (simp add: attempt_def show_nat.simps digit_def)
  have r: "isRetryableError \<lparr> err_name = ''Error'',
            err_message = ''API request failed: 400 Bad Request - upstream 503'' \<rparr>"
    by (simp add: isRetryableError_def)
  have h: "\<forall>k \<le> MAX_RETRIES. \<exists>e. attempt (?fetch k) = Inl e \<and> isRetryableError e"
    using a r by simp
  from makeAPIRequest_all_retryable[OF h, of 0] show ?thesis
    by (auto simp: MAX_RETRIES_def upt_rec)
qed

text \<open>
  With an HTTP 429, 502 or 503 response whose body can be read at every attempt, the budget
  of four attempts and the delays of 1 s, 2 s and 4 s are kept.
\<close>

lemma http_retryable_exhausts_retries:
  assumes "\<forall>k \<le> MAX_RETRIES. \<exists>response errorText.
             fetch k = Responded response \<and> \<not> ok response
             \<and> http_status response \<in> {429, 502, 503} \<and> text_body response = Inr errorText"
  shows "\<exists>e. attempt (fetch 3) = Inl e
            \<and> makeAPIRequest fetch 0 =
                ([Fetch 0, Delay 1000, Fetch 1, Delay 2000, Fetch 2, Delay 4000, Fetch 3], Inl e)"
proof -
  have "\<forall>k \<le> MAX_RETRIES. \<exists>e. attempt (fetch k) = Inl e \<and> isRetryableError e"
  proof (intro allI impI)
    fix k assume "k \<le> MAX_RETRIES"
    with assms obtain response errorText where
      "fetch k = Responded response" "\<not> ok response"
      "http_status response \<in> {429, 502, 503}" "text_body response = Inr errorText"
      by blast
    then show "\<exists>e. attempt (fetch k) = Inl e \<and> isRetryableError e"
      using http_429_502_503_retryable[of response errorText] by simp
  qed
  from makeAPIRequest_exhausts_retries[OF this] show ?thesis
    by blast
qed

text \<open>
  An HTTP 503 response whose body cannot be read is thrown as the error of the failed read,
  whose message does not mention the status: one attempt, no retry.
\<close>

lemma http_503_unreadable_body_not_retried:
  "makeAPIRequest
     (\<lambda>k. Responded \<lparr> ok = False, http_status = 503, statusText = ''Service Unavailable'',
                       text_body = Inl \<lparr> err_name = ''TypeError'',
                                          err_message = ''Error in body stream'' \<rparr>,
                       json_body = Inr (Inr []) \<rparr>) 0
   = ([Fetch 0], Inl \<lparr> err_name = ''TypeError'', err_message = ''Error in body stream'' \<rparr>)"
  by (rule makeAPIRequest_give_up) (simp_all add: attempt_def isRetryableError_def)

text \<open>
  Claim C2. The claim: a group submission whose every attempt fails with a retryable error
  (an HTTP 429, 502 or 503 response, or a transport-level failure) makes exactly
  \<open>MAX_RETRIES + 1 = 4\<close> attempts, with delays of 1 s, 2 s and 4 s between them, and then
  surfaces the error.

  The code keeps this budget for the errors \<open>isRetryableError\<close> accepts
  (\<open>makeAPIRequest_exhausts_retries\<close>, \<open>http_retryable_exhausts_retries\<close>), but that test
  reads the text of the message and misses the transport-level failure. A submission of one
  image whose every \<open>fetch\<close> is rejected with the \<open>TypeError\<close> \<open>Failed to fetch\<close> makes one
  attempt, waits for nothing and returns the failure; it does not make four attempts.
\<close>

theorem transport_failure_single_attempt:
  "fst (analyzeImageBatch
          (\<lambda>k. Rejected \<lparr> err_name = ''TypeError'', err_message = ''Failed to fetch'' \<rparr>)
          \<lparr> req_images = [\<lparr> api_name = ''a.png'', api_data = ''AAAA'', api_type = ''image/png'' \<rparr>],
            systemPrompt = ''Analyze the images.'', req_batchId = ''batch-1-0'' \<rparr> 50)
     = [Fetch 0]
   \<and> length (filter (\<lambda>ev. case ev of Fetch k \<Rightarrow> True | Delay ms \<Rightarrow> False)
        (fst (analyzeImageBatch
          (\<lambda>k. Rejected \<lparr> err_name = ''TypeError'', err_message = ''Failed to fetch'' \<rparr>)
          \<lparr> req_images = [\<lparr> api_name = ''a.png'', api_data = ''AAAA'', api_type = ''image/png'' \<rparr>],
            systemPrompt = ''Analyze the images.'', req_batchId = ''batch-1-0'' \<rparr> 50)))
     \<noteq> MAX_RETRIES + 1
   \<and> snd (analyzeImageBatch
          (\<lambda>k. Rejected \<lparr> err_name = ''TypeError'', err_message = ''Failed to fetch'' \<rparr>)
          \<lparr> req_images = [\<lparr> api_name = ''a.png'', api_data = ''AAAA'', api_type = ''image/png'' \<rparr>],
            systemPrompt = ''Analyze the images.'', req_batchId = ''batch-1-0'' \<rparr> 50)
     = analysisFailed \<lparr> err_name = ''TypeError'', err_message = ''Failed to fetch'' \<rparr>"
proof -
  let ?e = "\<lparr> err_name = ''TypeError'', err_message = ''Failed to fetch'' \<rparr>"
  have "makeAPIRequest (\<lambda>k. Rejected ?e) 0 = ([Fetch 0], Inl ?e)"
    by (rule makeAPIRequest_give_up) (simp_all add: attempt_def isRetryableError_def)
  then show ?thesis
    by (simp add: analyzeImageBatch_def MAX_RETRIES_def)
qed

section \<open>Aggregator: claims\<close>

lemma length_filter_eq_length:
  "length (filter P xs) = length xs \<longleftrightarrow> (\<forall>x \<in> set xs. P x)"
proof
  assume eq: "length (filter P xs) = length xs"
  show "\<forall>x \<in> set xs. P x"
  proof (rule ccontr)
    assume "\<not> (\<forall>x \<in> set xs. P x)"
    then obtain x where "x \<in> set xs" "\<not> P x"
      by blast
    then have "length (filter P xs) < length xs"
      by (rule length_filter_less)
    with eq show False
      by simp
  qed
next
  assume "\<forall>x \<in> set xs. P x"
  then have "filter P xs = xs"
    by (simp add: filter_id_conv)
  then show "length (filter P xs) = length xs"
    by simp
qed

text \<open>
  For batches that carry a result with a non-empty field, \<open>.map(\<dots>).filter(Boolean)\<close> keeps
  one entry per batch.
\<close>

lemma filterBoolean_all_present:
  assumes "\<forall>b \<in> set cs. \<exists>r. result b = Some r \<and> f r \<noteq> []"
  shows "filterBoolean (map (\<lambda>b. map_option f (result b)) cs) = map (\<lambda>b. f (the (result b))) cs"
  using assms by (induction cs) (auto simp: filterBoolean_def)

text \<open>
  Claim C7. The status of the consolidated report is ERROR exactly when every batch is in
  error and COMPLETED otherwise, so a partial success reports COMPLETED; its confidence is the
  "standard" label when at least one batch completed and the "limited" label otherwise.
\<close>

theorem report_status_and_confidence:
  "report_status (generateConsolidatedReport batches nImages startT endT now)
     = (if \<forall>b \<in> set batches. batch_status b = Error then ReportError else ReportCompleted)
   \<and> report_confidence (generateConsolidatedReport batches nImages startT endT now)
     = (if \<exists>b \<in> set batches. batch_status b = Completed then ''Standard diagnostic analysis''
        else ''Limited due to processing errors'')"
  by (simp add: generateConsolidatedReport_def Let_def length_filter_eq_length
        filter_empty_conv)

text \<open>
  The theorem at two completed batches and one in error, and at a single batch in error.
\<close>

theorem report_status_and_confidence_witness:
  "report_status (generateConsolidatedReport
       [completedExample ''b1'' ''A'' ''RA'', completedExample ''b2'' ''B'' ''RB'',
        erroredExample ''b3''] 45 0 9 10) = ReportCompleted
   \<and> report_confidence (generateConsolidatedReport
       [completedExample ''b1'' ''A'' ''RA'', completedExample ''b2'' ''B'' ''RB'',
        erroredExample ''b3''] 45 0 9 10) = ''Standard diagnostic analysis''
   \<and> report_status (generateConsolidatedReport [erroredExample ''b1''] 5 0 9 10) = ReportError
   \<and> report_confidence (generateConsolidatedReport [erroredExample ''b1''] 5 0 9 10)
       = ''Limited due to processing errors''"
  using report_status_and_confidence[of
      "[completedExample ''b1'' ''A'' ''RA'', completedExample ''b2'' ''B'' ''RB'',
        erroredExample ''b3'']" 45 0 9 10]
    report_status_and_confidence[of "[erroredExample ''b1'']" 5 0 9 10]
  by (simp add: completedExample_def erroredExample_def)

text \<open>
  Claim C6. The claim: \<open>overallFindings\<close> is a summary sentence stating the total item count
  and the total group count, followed by the Findings of the completed batches joined with the
  separator, or a fixed message when no batch completed; \<open>recommendations\<close> has one entry per
  completed batch, in order.

  The sentence states the number of completed batches, not of all batches: with two completed
  batches and one in error it reads "across 2 batches" although there are three.
\<close>

theorem overallFindings_counts_completed_batches:
  "overallFindings (generateConsolidatedReport
       [completedExample ''b1'' ''A'' ''RA'', completedExample ''b2'' ''B'' ''RB'',
        erroredExample ''b3''] 45 0 9 10)
     = ''Analysis of 45 medical images across 2 batches:'' @ [LF, LF] @ ''A'' @ batchSeparator @ ''B''
   \<and> totalBatches (generateConsolidatedReport
       [completedExample ''b1'' ''A'' ''RA'', completedExample ''b2'' ''B'' ''RB'',
        erroredExample ''b3''] 45 0 9 10) = 3
   \<and> overallFindings (generateConsolidatedReport
       [completedExample ''b1'' ''A'' ''RA'', completedExample ''b2'' ''B'' ''RB'',
        erroredExample ''b3''] 45 0 9 10)
     \<noteq> summarySentence 45 3 @ ''A'' @ batchSeparator @ ''B''"
  by (simp add: generateConsolidatedReport_def Let_def completedExample_def erroredExample_def
        filterBoolean_def summarySentence_def show_nat.simps digit_def)

text \<open>
  Claim C6, amended. For every terminal batch set: \<open>overallFindings\<close> is the summary sentence
  stating the total item count and the number of completed batches, followed by the Findings
  of the completed batches joined with the separator, in the order of the set, or the fixed
  message when no batch completed; \<open>recommendations\<close> has exactly one entry per completed
  batch, its Recommendations string, in the order of the set.
\<close>

theorem report_findings_and_recommendations:
  assumes "\<forall>b \<in> set batches. terminalBatch b"
  shows "overallFindings (generateConsolidatedReport batches nImages startT endT now)
           = (if \<exists>b \<in> set batches. batch_status b = Completed
              then summarySentence nImages (length (filter (\<lambda>b. batch_status b = Completed) batches))
                     @ join batchSeparator
                         (map (\<lambda>b. findings (the (result b)))
                            (filter (\<lambda>b. batch_status b = Completed) batches))
              else noFindingsMessage)
         \<and> report_recommendations (generateConsolidatedReport batches nImages startT endT now)
           = map (\<lambda>b. recommendations (the (result b)))
               (filter (\<lambda>b. batch_status b = Completed) batches)
         \<and> length (report_recommendations (generateConsolidatedReport batches nImages startT endT now))
           = length (filter (\<lambda>b. batch_status b = Completed) batches)"
proof -
  let ?completed = "filter (\<lambda>b. batch_status b = Completed) batches"
  have c: "\<forall>b \<in> set ?completed. \<exists>r. result b = Some r \<and> findings r \<noteq> [] \<and> recommendations r \<noteq> []"
    using assms by (auto simp: terminalBatch_def split: option.splits)
  have f: "filterBoolean (map (\<lambda>b. map_option findings (result b)) ?completed)
      = map (\<lambda>b. findings (the (result b))) ?completed"
    by (rule filterBoolean_all_present) (use c in blast)
  have r: "filterBoolean (map (\<lambda>b. map_option recommendations (result b)) ?completed)
      = map (\<lambda>b. recommendations (the (result b))) ?completed"
    by (rule filterBoolean_all_present) (use c in blast)
  show ?thesis
    by (simp add: generateConsolidatedReport_def Let_def f r filter_empty_conv)
qed

text \<open>
  The amended claim at two completed batches with Findings \<open>A\<close> and \<open>B\<close> and one batch in
  error.
\<close>

theorem report_findings_and_recommendations_witness:
  "list_all terminalBatch
       [completedExample ''b1'' ''A'' ''RA'', completedExample ''b2'' ''B'' ''RB'',
        erroredExample ''b3'']
   \<and> overallFindings (generateConsolidatedReport
       [completedExample ''b1'' ''A'' ''RA'', completedExample ''b2'' ''B'' ''RB'',
        erroredExample ''b3''] 45 0 9 10)
     = summarySentence 45 2 @ ''A'' @ batchSeparator @ ''B''
   \<and> report_recommendations (generateConsolidatedReport
       [completedExample ''b1'' ''A'' ''RA'', completedExample ''b2'' ''B'' ''RB'',
        erroredExample ''b3''] 45 0 9 10) = [''RA'', ''RB'']"
proof -
  let ?bs = "[completedExample ''b1'' ''A'' ''RA'', completedExample ''b2'' ''B'' ''RB'',
        erroredExample ''b3'']"
  have h: "\<forall>b \<in> set ?bs. terminalBatch b"
    by (simp add: terminalBatch_def completedExample_def erroredExample_def)
  have t: "list_all terminalBatch ?bs"
    using h by (simp add: list_all_iff)
  have c: "filter (\<lambda>b. batch_status b = Completed) ?bs
      = [completedExample ''b1'' ''A'' ''RA'', completedExample ''b2'' ''B'' ''RB'']"
    by (simp add: completedExample_def erroredExample_def)
  have "\<exists>b \<in> set ?bs. batch_status b = Completed"
    by (simp add: completedExample_def)
  with report_findings_and_recommendations[OF h, of 45 0 9 10] t show ?thesis
    unfolding c by (simp add: completedExample_def numeral_2_eq_2)
qed

section \<open>Scheduler: the invariant of a run\<close>

lemma set_splice: "distinct xs \<Longrightarrow> k < length xs \<Longrightarrow> set (splice k xs) = set xs - {xs ! k}"
proof -
  assume d: "distinct xs" and k: "k < length xs"
  have xs: "xs = take k xs @ xs ! k # drop (Suc k) xs"
    using k by (rule id_take_nth_drop)
  then have "distinct (take k xs @ xs ! k # drop (Suc k) xs)"
    using d by simp
  then have "xs ! k \<notin> set (take k xs) \<and> xs ! k \<notin> set (drop (Suc k) xs)"
    by auto
  moreover have "set xs = set (take k xs) \<union> {xs ! k} \<union> set (drop (Suc k) xs)"
    by (subst xs) auto
  ultimately show ?thesis
    by (auto simp: splice_def)
qed

lemma distinct_splice: "distinct xs \<Longrightarrow> distinct (splice k xs)"
proof (cases "k < length xs")
  case True
  assume d: "distinct xs"
  have "xs = take k xs @ xs ! k # drop (Suc k) xs"
    using True by (rule id_take_nth_drop)
  then have "distinct (take k xs @ xs ! k # drop (Suc k) xs)"
    using d by simp
  then show ?thesis
    by (simp add: splice_def)
next
  case False
  assume "distinct xs"
  with False show ?thesis
    by (simp add: splice_def)
qed

lemma length_splice: "k < length xs \<Longrightarrow> length (splice k xs) = length xs - 1"
  by (auto simp: splice_def)

lemma sched_inv_start:
  assumes "\<forall>b \<in> set bs. batch_status b \<noteq> Processing"
  shows "sched_inv (length bs) (startState bs)"
proof -
  have "\<forall>i < length bs. batch_status (bs ! i) \<noteq> Processing"
    using assms by simp
  then show ?thesis
    by (simp add: sched_inv_def startState_def maxConcurrent_def)
qed

lemma sched_inv_admit:
  assumes "sched_inv n s" "pc s = AtAdmit" "batchQueue s \<noteq> []"
    "length (activeBatches s) < maxConcurrent"
  shows "sched_inv n (admitOne now s)"
proof -
  from assms(3) obtain i q where q: "batchQueue s = i # q"
    by (cases "batchQueue s") auto
  have i: "i < n" "i \<notin> set q" "i \<notin> set (activeBatches s)"
    using assms(1) q by (auto simp: sched_inv_def)
  show ?thesis
    using assms(1,2,4) q i
    unfolding sched_inv_def admitOne_def processBatch_start_def settled_def
    by (auto simp: nth_list_update)
qed


lemma sched_inv_wait:
  assumes "sched_inv n s" "pc s = AtAdmit"
    "\<not> (batchQueue s \<noteq> [] \<and> length (activeBatches s) < maxConcurrent)" "activeBatches s \<noteq> []"
  shows "sched_inv n (s\<lparr> pc := AtRace \<rparr>)"
  using assms unfolding sched_inv_def settled_def by auto

lemma sched_inv_finish:
  assumes "sched_inv n s" "pc s = AtAdmit" "batchQueue s = []" "activeBatches s = []"
  shows "sched_inv n (finishRun nImages startT endT now s)"
  using assms unfolding sched_inv_def settled_def finishRun_def by auto

lemma sched_inv_settle:
  assumes "sched_inv n s" "pc s = AtRace \<or> (\<exists>k. pc s = AtPoll (Suc k))"
    "i \<in> set (activeBatches s)" "batch_status (rs_batches s ! i) = Processing"
  shows "sched_inv n (processBatch_finish i outcome now s)"
proof -
  have i: "i < n" "i \<notin> set (batchQueue s)"
    using assms(1,3) by (auto simp: sched_inv_def)
  show ?thesis
  proof (cases outcome)
    case (PrepareFailed e)
    then show ?thesis
      using assms i unfolding sched_inv_def processBatch_finish_def settled_def
      by (auto simp: nth_list_update Let_def)
  next
    case (Analyzed response)
    then show ?thesis
      using assms i unfolding sched_inv_def processBatch_finish_def settled_def
      by (auto simp: nth_list_update Let_def)
  qed
qed

lemma sched_inv_resume:
  assumes "sched_inv n s" "pc s = AtRace"
  shows "sched_inv n (s\<lparr> pc := AtPoll (length (activeBatches s)) \<rparr>)"
  using assms unfolding sched_inv_def settled_def by auto

lemma sched_inv_keep:
  assumes "sched_inv n s" "pc s = AtPoll (Suc k)"
  shows "sched_inv n (s\<lparr> pc := AtPoll k \<rparr>)"
  using assms unfolding sched_inv_def settled_def by auto

lemma sched_inv_again:
  assumes "sched_inv n s" "pc s = AtPoll 0"
  shows "sched_inv n (s\<lparr> pc := AtAdmit \<rparr>)"
  using assms unfolding sched_inv_def settled_def by auto

lemma sched_inv_remove:
  assumes "sched_inv n s" "pc s = AtPoll (Suc k)" "settled s (activeBatches s ! k)"
  shows "sched_inv n (s\<lparr> activeBatches := splice k (activeBatches s), pc := AtPoll k \<rparr>)"
proof -
  have k: "k < length (activeBatches s)"
    using assms(1,2) by (auto simp: sched_inv_def)
  have d: "distinct (activeBatches s)"
    using assms(1) by (auto simp: sched_inv_def)
  note sp = set_splice[OF d k] distinct_splice[OF d, of k] length_splice[OF k]
  have np: "batch_status (rs_batches s ! (activeBatches s ! k)) \<noteq> Processing"
    using assms(3) by (auto simp: settled_def)
  have pr: "activeBatches s ! k \<in> set (processedBatches s)"
    using assms(1) k np by (auto simp: sched_inv_def)
  show ?thesis
    using assms(1,2) k np pr unfolding sched_inv_def settled_def
    by (auto simp: sp)
qed

lemma sched_inv_main:
  assumes "sched_inv n s" "main_step s s'"
  shows "sched_inv n s'"
  using assms(2,1)
proof (cases rule: main_step.cases)
  case (admit now)
  then show ?thesis using assms(1) by (simp add: sched_inv_admit)
next
  case wait
  then show ?thesis using assms(1) by (simp add: sched_inv_wait)
next
  case (finish nImages startT endT now)
  then show ?thesis using assms(1) by (simp add: sched_inv_finish)
next
  case resume
  then show ?thesis using assms(1) by (simp add: sched_inv_resume)
next
  case (remove k)
  then show ?thesis using assms(1) by (simp add: sched_inv_remove)
next
  case (keep k)
  then show ?thesis using assms(1) by (simp add: sched_inv_keep)
next
  case again
  then show ?thesis using assms(1) by (simp add: sched_inv_again)
qed

lemma sched_inv_env:
  assumes "sched_inv n s" "settle_step s s'"
  shows "sched_inv n s'"
  using assms(2,1)
proof (cases rule: settle_step.cases)
  case (settle i outcome now)
  then show ?thesis using assms(1) sched_inv_settle[of n s i outcome now] by blast
qed

lemma sched_inv_step:
  assumes "sched_inv n s" "sched_step s s'"
  shows "sched_inv n s'"
  using assms(2)
proof (cases rule: sched_step.cases)
  case main
  with assms(1) show ?thesis by (rule sched_inv_main)
next
  case env
  with assms(1) show ?thesis by (rule sched_inv_env)
qed

lemma reachable_inv:
  assumes "\<forall>b \<in> set bs. batch_status b \<noteq> Processing" "reachable bs s"
  shows "sched_inv (length bs) s"
  using assms(2) unfolding reachable_def
proof (induction rule: rtranclp_induct)
  case base
  show ?case using assms(1) by (rule sched_inv_start)
next
  case (step y z)
  then show ?case by (simp add: sched_inv_step)
qed

lemma processingCount_le:
  assumes "sched_inv n s"
  shows "processingCount s \<le> maxConcurrent"
proof -
  have "processingCount s = card {i. i < length (rs_batches s) \<and> batch_status (rs_batches s ! i) = Processing}"
    by (simp add: processingCount_def length_filter_conv_card)
  also have "\<dots> \<le> card (set (activeBatches s))"
    using assms by (intro card_mono) (auto simp: sched_inv_def)
  also have "\<dots> \<le> length (activeBatches s)"
    by (rule card_length)
  also have "\<dots> \<le> maxConcurrent"
    using assms by (simp add: sched_inv_def)
  finally show ?thesis .
qed

text \<open>
  Outside \<open>Promise.race\<close> the main coroutine can always take its next step; in the race it
  can resume as soon as an active promise is settled, and otherwise every active promise is
  still in flight.
\<close>

lemma main_progress:
  assumes "sched_inv n s" "pc s \<noteq> Finished" "pc s \<noteq> AtRace"
  shows "\<exists>s'. main_step s s'"
proof (cases "pc s")
  case AtAdmit
  show ?thesis
  proof (cases "batchQueue s \<noteq> [] \<and> length (activeBatches s) < maxConcurrent")
    case True
    then show ?thesis using AtAdmit main_step.admit by blast
  next
    case False
    show ?thesis
    proof (cases "activeBatches s = []")
      case True
      with False have "batchQueue s = []" by (simp add: maxConcurrent_def)
      then show ?thesis using AtAdmit True main_step.finish by blast
    next
      case nonempty: False
      then show ?thesis using AtAdmit False main_step.wait by blast
    qed
  qed
next
  case AtRace
  then show ?thesis using assms(3) by simp
next
  case (AtPoll k)
  show ?thesis
  proof (cases k)
    case 0
    then show ?thesis using AtPoll main_step.again by blast
  next
    case (Suc j)
    then show ?thesis using AtPoll main_step.remove main_step.keep by blast
  qed
next
  case Finished
  then show ?thesis using assms(2) by simp
qed

lemma sched_inv_activeD:
  assumes "sched_inv n s" "i \<in> set (activeBatches s)"
  shows "batch_status (rs_batches s ! i) = Processing \<or> settled s i"
proof -
  have "batch_status (rs_batches s ! i) = Processing \<or> i \<in> set (processedBatches s)"
    using assms unfolding sched_inv_def by blast
  moreover have "i \<in> set (processedBatches s) \<Longrightarrow> settled s i"
    using assms(1) unfolding sched_inv_def by blast
  ultimately show ?thesis
    by blast
qed

lemma race_progress:
  assumes "sched_inv n s" "pc s = AtRace"
  shows "(\<exists>s'. main_step s s')
         \<or> (activeBatches s \<noteq> []
             \<and> (\<forall>i \<in> set (activeBatches s). \<forall>outcome now.
                   settle_step s (processBatch_finish i outcome now s)))"
proof (cases "\<exists>i \<in> set (activeBatches s). settled s i")
  case True
  then show ?thesis using assms(2) main_step.resume by blast
next
  case False
  have "settle_step s (processBatch_finish i outcome now s)"
    if "i \<in> set (activeBatches s)" for i outcome now
  proof -
    have "batch_status (rs_batches s ! i) = Processing"
      using sched_inv_activeD[OF assms(1) that] False that by blast
    then show ?thesis using assms(2) that by (intro settle_step.settle) simp_all
  qed
  moreover have "activeBatches s \<noteq> []"
    using assms by (simp add: sched_inv_def)
  ultimately show ?thesis by blast
qed

lemma sched_progress:
  assumes "sched_inv n s" "pc s \<noteq> Finished"
  shows "\<exists>s'. sched_step s s'"
proof (cases "pc s = AtRace")
  case True
  from race_progress[OF assms(1) True] show ?thesis
  proof
    assume "\<exists>s'. main_step s s'"
    then show ?thesis using sched_step.main by blast
  next
    assume a: "activeBatches s \<noteq> []
      \<and> (\<forall>i \<in> set (activeBatches s). \<forall>outcome now.
            settle_step s (processBatch_finish i outcome now s))"
    then obtain i where "i \<in> set (activeBatches s)"
      by (cases "activeBatches s") auto
    with a show ?thesis using sched_step.env by blast
  qed
next
  case False
  then show ?thesis using main_progress[OF assms] sched_step.main by blast
qed

lemma sched_finished:
  assumes "sched_inv n s" "pc s = Finished"
  shows "batchQueue s = [] \<and> activeBatches s = []
         \<and> (\<forall>i < n. i \<in> set (processedBatches s) \<and> settled s i)"
  using assms by (auto simp: sched_inv_def)

text \<open>Every step lowers \<open>run_measure\<close>, so no run goes on for ever.\<close>

lemma length_filter_one_changed:
  assumes "distinct xs" "i \<in> set xs" "P i" "\<not> Q i" "\<forall>j. j \<noteq> i \<longrightarrow> Q j = P j"
  shows "Suc (length (filter Q xs)) = length (filter P xs)"
  using assms
proof (induction xs)
  case Nil
  then show ?case by simp
next
  case (Cons x xs)
  show ?case
  proof (cases "x = i")
    case True
    then have "i \<notin> set xs" using Cons.prems(1) by simp
    then have "filter Q xs = filter P xs"
      using Cons.prems(5) by (intro filter_cong) auto
    then show ?thesis using True Cons.prems by simp
  next
    case False
    then have "i \<in> set xs" "distinct xs" using Cons.prems by auto
    then have "Suc (length (filter Q xs)) = length (filter P xs)"
      using Cons.IH Cons.prems by blast
    then show ?thesis using False Cons.prems(5) by simp
  qed
qed

lemma rank_bound:
  assumes "sched_inv n s"
  shows "(case pc s of
          Finished \<Rightarrow> 0
        | AtRace \<Rightarrow> length (activeBatches s) + 1
        | AtAdmit \<Rightarrow> length (activeBatches s) + 2
        | AtPoll k \<Rightarrow>
            if list_ex (settled s) (take k (activeBatches s)) then k
            else length (activeBatches s) + 3 + k) < 11"
  using assms by (auto simp: sched_inv_def maxConcurrent_def split: control.splits)

lemma measure_admit:
  assumes "sched_inv n s" "pc s = AtAdmit" "batchQueue s \<noteq> []"
  shows "run_measure (admitOne now s) < run_measure s"
proof -
  from assms(3) obtain i q where q: "batchQueue s = i # q"
    by (cases "batchQueue s") auto
  have i: "i \<notin> set (activeBatches s)" "i < length (rs_batches s)"
    using assms(1) q by (auto simp: sched_inv_def)
  have "filter (\<lambda>j. batch_status ((rs_batches s)[i := (rs_batches s ! i)\<lparr>batch_status := Processing, startTime := Some now\<rparr>] ! j) = Processing) (activeBatches s)
      = filter (\<lambda>j. batch_status (rs_batches s ! j) = Processing) (activeBatches s)"
    using i by (intro filter_cong) (auto simp: nth_list_update)
  then have "inFlight (admitOne now s) = Suc (inFlight s)"
    using i q by (simp add: inFlight_def admitOne_def processBatch_start_def)
  then show ?thesis
    using assms(2) q by (simp add: run_measure_def admitOne_def processBatch_start_def)
qed

lemma measure_settle:
  assumes "sched_inv n s" "i \<in> set (activeBatches s)" "batch_status (rs_batches s ! i) = Processing"
    "pc s = AtRace \<or> (\<exists>k. pc s = AtPoll (Suc k))"
  shows "run_measure (processBatch_finish i outcome now s) < run_measure s"
proof -
  let ?s' = "processBatch_finish i outcome now s"
  have i: "i < length (rs_batches s)" and d: "distinct (activeBatches s)"
    using assms(1,2) by (auto simp: sched_inv_def)
  have st: "batch_status (rs_batches ?s' ! i) \<noteq> Processing"
    "\<forall>j. j \<noteq> i \<longrightarrow> (batch_status (rs_batches ?s' ! j) = Processing) = (batch_status (rs_batches s ! j) = Processing)"
    using i by (auto simp: processBatch_finish_def Let_def split: batch_outcome.splits)
  have same: "activeBatches ?s' = activeBatches s" "batchQueue ?s' = batchQueue s" "pc ?s' = pc s"
    by (auto simp: processBatch_finish_def Let_def split: batch_outcome.splits)
  have "Suc (inFlight ?s') = inFlight s"
    unfolding inFlight_def same
    by (rule length_filter_one_changed[OF d assms(2)]) (use assms(3) st in auto)
  moreover have "sched_inv n ?s'"
    using assms by (intro sched_inv_settle)
  ultimately show ?thesis
    using rank_bound[of n ?s'] same unfolding run_measure_def by simp
qed


lemma length_filter_splice:
  assumes "k < length xs" "\<not> P (xs ! k)"
  shows "length (filter P (splice k xs)) = length (filter P xs)"
proof -
  have "xs = take k xs @ xs ! k # drop (Suc k) xs"
    using assms(1) by (rule id_take_nth_drop)
  then have "filter P xs = filter P (take k xs) @ filter P (xs ! k # drop (Suc k) xs)"
    by (metis filter_append)
  then show ?thesis
    using assms(2) by (simp add: splice_def)
qed

lemma measure_remove:
  assumes "sched_inv n s" "pc s = AtPoll (Suc k)" "settled s (activeBatches s ! k)"
  shows "run_measure (s\<lparr> activeBatches := splice k (activeBatches s), pc := AtPoll k \<rparr>) < run_measure s"
proof -
  let ?s' = "s\<lparr> activeBatches := splice k (activeBatches s), pc := AtPoll k \<rparr>"
  have k: "k < length (activeBatches s)"
    using assms(1,2) by (auto simp: sched_inv_def)
  have np: "\<not> batch_status (rs_batches s ! (activeBatches s ! k)) = Processing"
    using assms(3) by (auto simp: settled_def)
  have "inFlight ?s' = inFlight s"
    unfolding inFlight_def using length_filter_splice[OF k, of "\<lambda>i. batch_status (rs_batches s ! i) = Processing"] np
    by simp
  moreover have "length (activeBatches ?s') = length (activeBatches s) - 1"
    using k by (simp add: length_splice)
  moreover have "sched_inv n ?s'"
    using assms by (intro sched_inv_remove)
  ultimately show ?thesis
    using rank_bound[of n ?s'] k unfolding run_measure_def by simp
qed

lemma settled_pc_update: "settled (s\<lparr> pc := x \<rparr>) = settled s"
  by (rule ext) (simp add: settled_def)

lemma measure_keep:
  assumes "sched_inv n s" "pc s = AtPoll (Suc k)" "\<not> settled s (activeBatches s ! k)"
  shows "run_measure (s\<lparr> pc := AtPoll k \<rparr>) < run_measure s"
proof -
  have k: "k < length (activeBatches s)"
    using assms(1,2) by (auto simp: sched_inv_def)
  have "take (Suc k) (activeBatches s) = take k (activeBatches s) @ [activeBatches s ! k]"
    using k by (rule take_Suc_conv_app_nth)
  then have "list_ex (settled s) (take (Suc k) (activeBatches s))
      = list_ex (settled s) (take k (activeBatches s))"
    using assms(3) by (simp add: settled_def list_ex_iff)
  then show ?thesis
    using assms(2) by (simp add: run_measure_def inFlight_def settled_pc_update)
qed

lemma measure_resume:
  assumes "pc s = AtRace" "\<exists>i \<in> set (activeBatches s). settled s i"
  shows "run_measure (s\<lparr> pc := AtPoll (length (activeBatches s)) \<rparr>) < run_measure s"
  using assms by (simp add: run_measure_def inFlight_def settled_pc_update list_ex_iff)

lemma measure_wait:
  assumes "pc s = AtAdmit"
  shows "run_measure (s\<lparr> pc := AtRace \<rparr>) < run_measure s"
  using assms by (simp add: run_measure_def inFlight_def)

lemma measure_finish:
  assumes "pc s = AtAdmit"
  shows "run_measure (finishRun nImages startT endT now s) < run_measure s"
  using assms by (simp add: run_measure_def inFlight_def finishRun_def)

lemma measure_again:
  assumes "pc s = AtPoll 0"
  shows "run_measure (s\<lparr> pc := AtAdmit \<rparr>) < run_measure s"
  using assms by (simp add: run_measure_def inFlight_def)

lemma measure_step:
  assumes "sched_inv n s" "sched_step s s'"
  shows "run_measure s' < run_measure s"
  using assms(2)
proof (cases rule: sched_step.cases)
  case main
  then show ?thesis
  proof (cases rule: main_step.cases)
    case (admit now)
    then show ?thesis using assms(1) by (simp add: measure_admit)
  next
    case wait
    then show ?thesis by (simp add: measure_wait)
  next
    case (finish nImages startT endT now)
    then show ?thesis by (simp add: measure_finish)
  next
    case resume
    then show ?thesis by (simp add: measure_resume)
  next
    case (remove k)
    then show ?thesis using assms(1) by (simp add: measure_remove)
  next
    case (keep k)
    then show ?thesis using assms(1) by (simp add: measure_keep)
  next
    case again
    then show ?thesis by (simp add: measure_again)
  qed
next
  case env
  then show ?thesis
  proof (cases rule: settle_step.cases)
    case (settle i outcome now)
    then show ?thesis using assms(1) measure_settle[of n s i outcome now] by blast
  qed
qed

section \<open>Scheduler: claims\<close>

text \<open>
  Claim C9. In every run, at no observable instant are more than \<open>maxConcurrent = 3\<close> batches
  in the \<open>processing\<close> state, and every pending batch is eventually admitted once a slot is
  free. Stated for every state \<open>s\<close> a run reaches:
  \<^item> at most 3 batches are processing;
  \<^item> the scheduler is suspended in \<open>Promise.race\<close> with a batch still queued only when all
    three slots are taken;
  \<^item> anywhere else the main coroutine can take its next step by itself, so after a slot is
    freed it goes on to the admission loop, which admits the head of the queue;
  \<^item> in the race it resumes once an active promise is settled, and until then every active
    promise belongs to a batch in flight, whose end, with any outcome and at any time, is a
    step of the run;
  \<^item> every step lowers \<open>run_measure\<close>, so no run goes on for ever;
  \<^item> in the finished state the queue is empty and every batch has been admitted, processed
    and settled.
\<close>

theorem scheduler_bound_and_admission:
  assumes "\<forall>b \<in> set bs. batch_status b \<noteq> Processing" "reachable bs s"
  shows "processingCount s \<le> maxConcurrent
       \<and> (pc s = AtRace \<longrightarrow> batchQueue s = [] \<or> length (activeBatches s) = maxConcurrent)
       \<and> (pc s \<noteq> Finished \<and> pc s \<noteq> AtRace \<longrightarrow> (\<exists>s'. main_step s s'))
       \<and> (pc s = AtRace \<longrightarrow>
            (\<exists>s'. main_step s s')
            \<or> (activeBatches s \<noteq> []
                \<and> (\<forall>i \<in> set (activeBatches s). \<forall>outcome now.
                      settle_step s (processBatch_finish i outcome now s))))
       \<and> (\<forall>s'. sched_step s s' \<longrightarrow> run_measure s' < run_measure s)
       \<and> (pc s = Finished \<longrightarrow>
            batchQueue s = [] \<and> activeBatches s = []
            \<and> (\<forall>i < length bs. i \<in> set (processedBatches s) \<and> settled s i))"
proof -
  have inv: "sched_inv (length bs) s"
    using assms by (rule reachable_inv)
  have "pc s = AtRace \<longrightarrow> batchQueue s = [] \<or> length (activeBatches s) = maxConcurrent"
    using inv by (simp add: sched_inv_def)
  moreover have "pc s \<noteq> Finished \<and> pc s \<noteq> AtRace \<longrightarrow> (\<exists>s'. main_step s s')"
    using main_progress[OF inv] by blast
  moreover have "pc s = AtRace \<longrightarrow>
      (\<exists>s'. main_step s s')
      \<or> (activeBatches s \<noteq> []
          \<and> (\<forall>i \<in> set (activeBatches s). \<forall>outcome now.
                settle_step s (processBatch_finish i outcome now s)))"
    using race_progress[OF inv] by blast
  moreover have "\<forall>s'. sched_step s s' \<longrightarrow> run_measure s' < run_measure s"
    using measure_step[OF inv] by blast
  moreover have "pc s = Finished \<longrightarrow>
      batchQueue s = [] \<and> activeBatches s = []
      \<and> (\<forall>i < length bs. i \<in> set (processedBatches s) \<and> settled s i)"
    using sched_finished[OF inv] by blast
  ultimately show ?thesis
    using processingCount_le[OF inv] by blast
qed

text \<open>
  The theorem at four pending batches after three admissions (three batches are processing,
  the fourth waits in the queue, the scheduler waits in \<open>Promise.race\<close>, and the end of a
  batch lowers the measure), and at the end of a run over one batch.
\<close>

theorem scheduler_bound_and_admission_witness:
  "list_all (\<lambda>b. batch_status b \<noteq> Processing) fourPending
   \<and> reachable fourPending waitingExample
   \<and> processingCount waitingExample = 3
   \<and> processingCount waitingExample \<le> maxConcurrent
   \<and> pc waitingExample = AtRace
   \<and> batchQueue waitingExample = [3]
   \<and> length (activeBatches waitingExample) = maxConcurrent
   \<and> settle_step waitingExample (processBatch_finish 0 (Analyzed exampleResponse) 70 waitingExample)
   \<and> run_measure (processBatch_finish 0 (Analyzed exampleResponse) 70 waitingExample)
       < run_measure waitingExample
   \<and> reachable [pendingExample ''b1''] finishedExample
   \<and> pc finishedExample = Finished
   \<and> batchQueue finishedExample = []
   \<and> processedBatches finishedExample = [0]
   \<and> settled finishedExample 0"
proof -
  let ?s0 = "startState fourPending"
  let ?s1 = "admitOne 10 ?s0"
  let ?s2 = "admitOne 20 ?s1"
  let ?s3 = "admitOne 30 ?s2"
  have h: "\<forall>b \<in> set fourPending. batch_status b \<noteq> Processing"
    by (simp add: fourPending_def pendingExample_def)
  have q: "batchQueue ?s0 = [0, 1, 2, 3]" "batchQueue ?s1 = [1, 2, 3]" "batchQueue ?s2 = [2, 3]"
    "batchQueue ?s3 = [3]"
    "activeBatches ?s0 = []" "activeBatches ?s1 = [0]" "activeBatches ?s2 = [0, 1]"
    "activeBatches ?s3 = [0, 1, 2]"
    "pc ?s0 = AtAdmit" "pc ?s1 = AtAdmit" "pc ?s2 = AtAdmit" "pc ?s3 = AtAdmit"
    "batch_status (rs_batches ?s3 ! 0) = Processing"
    by (simp_all add: fourPending_def startState_def admitOne_def processBatch_start_def upt_rec)
  have "sched_step ?s0 ?s1"
    by (intro sched_step.main main_step.admit) (simp_all add: q maxConcurrent_def)
  moreover have "sched_step ?s1 ?s2"
    by (intro sched_step.main main_step.admit) (simp_all add: q maxConcurrent_def)
  moreover have "sched_step ?s2 ?s3"
    by (intro sched_step.main main_step.admit) (simp_all add: q maxConcurrent_def)
  moreover have "sched_step ?s3 waitingExample"
    unfolding waitingExample_def by (intro sched_step.main main_step.wait) (simp_all add: q maxConcurrent_def)
  ultimately have r: "reachable fourPending waitingExample"
    unfolding reachable_def by (meson rtranclp.rtrancl_into_rtrancl rtranclp.rtrancl_refl)
  have w: "pc waitingExample = AtRace" "batchQueue waitingExample = [3]"
    "activeBatches waitingExample = [0, 1, 2]"
    "batch_status (rs_batches waitingExample ! 0) = Processing"
    using q by (simp_all add: waitingExample_def)
  have c: "processingCount waitingExample = 3"
    by (simp add: waitingExample_def processingCount_def fourPending_def startState_def
          admitOne_def processBatch_start_def upt_rec pendingExample_def)
  have st: "settle_step waitingExample (processBatch_finish 0 (Analyzed exampleResponse) 70 waitingExample)"
    by (rule settle_step.settle) (simp_all add: w)
  note th = scheduler_bound_and_admission[OF h r]
  have le: "processingCount waitingExample \<le> maxConcurrent"
    using th by blast
  have m: "run_measure (processBatch_finish 0 (Analyzed exampleResponse) 70 waitingExample)
      < run_measure waitingExample"
    using th sched_step.env[OF st] by blast

  let ?bs = "[pendingExample ''b1'']"
  let ?t0 = "startState ?bs"
  let ?t1 = "admitOne 10 ?t0"
  let ?t2 = "?t1\<lparr> pc := AtRace \<rparr>"
  let ?t4 = "settledExample\<lparr> pc := AtPoll (length (activeBatches settledExample)) \<rparr>"
  let ?t5 = "?t4\<lparr> activeBatches := splice 0 (activeBatches ?t4), pc := AtPoll 0 \<rparr>"
  let ?t6 = "?t5\<lparr> pc := AtAdmit \<rparr>"
  have h1: "\<forall>b \<in> set ?bs. batch_status b \<noteq> Processing"
    by (simp add: pendingExample_def)
  have p: "batchQueue ?t0 = [0]" "activeBatches ?t0 = []" "pc ?t0 = AtAdmit"
    "batchQueue ?t1 = []" "activeBatches ?t1 = [0]" "pc ?t1 = AtAdmit"
    "batch_status (rs_batches ?t1 ! 0) = Processing"
    by (simp_all add: startState_def admitOne_def processBatch_start_def)
  have se: "pc settledExample = AtRace" "activeBatches settledExample = [0]"
    "batchQueue settledExample = []" "processedBatches settledExample = [0]"
    "settled settledExample 0"
    by (simp_all add: settledExample_def processBatch_finish_def exampleResponse_def Let_def
          settled_def startState_def admitOne_def processBatch_start_def)
  have "sched_step ?t0 ?t1"
    by (intro sched_step.main main_step.admit) (simp_all add: p maxConcurrent_def)
  moreover have "sched_step ?t1 ?t2"
    by (intro sched_step.main main_step.wait) (simp_all add: p)
  moreover have "sched_step ?t2 settledExample"
    unfolding settledExample_def by (intro sched_step.env settle_step.settle) (simp_all add: p)
  moreover have "sched_step settledExample ?t4"
    by (intro sched_step.main main_step.resume) (simp_all add: se)
  moreover have "sched_step ?t4 ?t5"
    by (intro sched_step.main main_step.remove) (simp_all add: se settled_pc_update)
  moreover have "sched_step ?t5 ?t6"
    by (intro sched_step.main main_step.again) simp
  moreover have e6: "?t6 = settledExample\<lparr> activeBatches := splice 0 (activeBatches settledExample), pc := AtAdmit \<rparr>"
    by simp
  moreover have "sched_step ?t6 finishedExample"
    unfolding finishedExample_def e6 by (intro sched_step.main main_step.finish) (simp_all add: se splice_def)
  ultimately have rf: "reachable ?bs finishedExample"
    unfolding reachable_def by (meson rtranclp.rtrancl_into_rtrancl rtranclp.rtrancl_refl)
  have f: "pc finishedExample = Finished" "processedBatches finishedExample = [0]"
    by (simp_all add: finishedExample_def finishRun_def se)
  from scheduler_bound_and_admission[OF h1 rf] f(1)
  have fin: "batchQueue finishedExample = []" "settled finishedExample 0"
    by auto
  have "list_all (\<lambda>b. batch_status b \<noteq> Processing) fourPending"
    using h by (simp add: list_all_iff)
  then show ?thesis
    using r c le w st m rf f fin by (simp add: maxConcurrent_def)
qed

section \<open>Scheduler: progress\<close>

lemma round_percent_full: "0 < n \<Longrightarrow> round_percent n n = 100"
  by (simp add: round_percent_def)

lemma round_percent_mono: "k \<le> k' \<Longrightarrow> round_percent k n \<le> round_percent k' n"
  by (simp add: round_percent_def div_le_mono)

lemma round_percent_100_iff:
  assumes "0 < n" "n < 200" "k \<le> n"
  shows "round_percent k n = 100 \<longleftrightarrow> k = n"
proof
  assume "round_percent k n = 100"
  then have "(200 * k + n) div (2 * n) = 100"
    by (simp add: round_percent_def)
  then have "100 * (2 * n) \<le> 200 * k + n"
    using times_div_less_eq_dividend[of "2 * n" "200 * k + n"] by simp
  then show "k = n"
    using assms by arith
next
  assume "k = n"
  then show "round_percent k n = 100"
    using assms(1) by (simp add: round_percent_full)
qed

text \<open>
  When \<open>analyzeImageBatch\<close> has returned, the end of \<open>processBatch\<close> stores the rounded
  percentage of batches done and the two counters.
\<close>

lemma progress_after_response:
  "overallProgress (processingStatus (processBatch_finish i (Analyzed response) now s))
     = round_percent (completedCount (processBatch_finish i (Analyzed response) now s)
                        + failedCount (processBatch_finish i (Analyzed response) now s))
         (length (rs_batches (processBatch_finish i (Analyzed response) now s)))
   \<and> ps_completedBatches (processingStatus (processBatch_finish i (Analyzed response) now s))
     = completedCount (processBatch_finish i (Analyzed response) now s)
   \<and> ps_failedBatches (processingStatus (processBatch_finish i (Analyzed response) now s))
     = failedCount (processBatch_finish i (Analyzed response) now s)"
  by (simp add: processBatch_finish_def Let_def)

text \<open>
  A response marked successful carries a result whose Findings and Recommendations are not
  empty, so a batch that \<open>processBatch\<close> leaves \<open>completed\<close> is a \<open>terminalBatch\<close>.
\<close>

lemma analyzeImageBatch_success_result:
  assumes "success (snd (analyzeImageBatch fetch request procTime))"
  shows "\<exists>r. resp_result (snd (analyzeImageBatch fetch request procTime)) = Some r
           \<and> findings r \<noteq> [] \<and> recommendations r \<noteq> []"
proof -
  have "findings (parseAnalysisResponse t b n p) \<noteq> []
      \<and> recommendations (parseAnalysisResponse t b n p) \<noteq> []" for t b n p
    by (simp add: parseAnalysisResponse_def Let_def js_or_nonempty)
  then show ?thesis
    using assms
    by (auto simp: analyzeImageBatch_def analysisFailed_def
        split: if_splits prod.splits sum.splits option.splits list.splits)
qed

lemma processBatch_finish_terminal:
  assumes "i < length (rs_batches s)"
  shows "terminalBatch (rs_batches (processBatch_finish i
           (Analyzed (snd (analyzeImageBatch fetch request procTime))) now s) ! i)"
    and "terminalBatch (rs_batches (processBatch_finish i (PrepareFailed e) now s) ! i)"
  using assms analyzeImageBatch_success_result[of fetch request procTime]
  by (auto simp: processBatch_finish_def Let_def terminalBatch_def)

text \<open>
  Claim C8. The claim: after every batch's terminal transition \<open>overallProgress\<close> equals
  \<open>round(100 * (completed + failed) / total)\<close>; it never decreases and it is 100 exactly
  when every batch is terminal.

  The \<open>catch\<close> block of \<open>processBatch\<close>, entered when \<open>prepareBatchForAPI\<close> throws, marks the
  batch as failed and counts it, but leaves out the \<open>setState\<close> with which the \<open>try\<close> block
  ends. In a run over one batch whose image cannot be read, the batch is terminal and
  \<open>completed + failed = total\<close>, while \<open>overallProgress\<close> is still 0 and the status counters
  still show no failed batch; at the end of the run the progress is set to 100 and the
  counters stay at 0.
\<close>

theorem progress_stale_after_failed_preparation:
  "reachable [pendingExample ''batch-1-0'']
     (processBatch_finish 0
        (PrepareFailed \<lparr> err_name = ''Error'',
                          err_message = ''Failed to prepare image a.png for analysis'' \<rparr>) 70
        ((admitOne 10 (startState [pendingExample ''batch-1-0'']))\<lparr> pc := AtRace \<rparr>))
   \<and> batch_status (rs_batches (processBatch_finish 0
        (PrepareFailed \<lparr> err_name = ''Error'',
                          err_message = ''Failed to prepare image a.png for analysis'' \<rparr>) 70
        ((admitOne 10 (startState [pendingExample ''batch-1-0'']))\<lparr> pc := AtRace \<rparr>)) ! 0) = Error
   \<and> failedCount (processBatch_finish 0
        (PrepareFailed \<lparr> err_name = ''Error'',
                          err_message = ''Failed to prepare image a.png for analysis'' \<rparr>) 70
        ((admitOne 10 (startState [pendingExample ''batch-1-0'']))\<lparr> pc := AtRace \<rparr>)) = 1
   \<and> round_percent (0 + 1) 1 = 100
   \<and> processingStatus (processBatch_finish 0
        (PrepareFailed \<lparr> err_name = ''Error'',
                          err_message = ''Failed to prepare image a.png for analysis'' \<rparr>) 70
        ((admitOne 10 (startState [pendingExample ''batch-1-0'']))\<lparr> pc := AtRace \<rparr>))
       = \<lparr> ps_totalBatches = 1, ps_completedBatches = 0, ps_failedBatches = 0,
           currentBatch = Some ''batch-1-0'', overallProgress = 0 \<rparr>
   \<and> processingStatus (finishRun 1 0 90 95
        ((processBatch_finish 0
           (PrepareFailed \<lparr> err_name = ''Error'',
                             err_message = ''Failed to prepare image a.png for analysis'' \<rparr>) 70
           ((admitOne 10 (startState [pendingExample ''batch-1-0'']))\<lparr> pc := AtRace \<rparr>))
         \<lparr> activeBatches := [], pc := AtAdmit \<rparr>))
       = \<lparr> ps_totalBatches = 1, ps_completedBatches = 0, ps_failedBatches = 0,
           currentBatch = None, overallProgress = 100 \<rparr>"
proof -
  let ?bs = "[pendingExample ''batch-1-0'']"
  let ?e = "\<lparr> err_name = ''Error'', err_message = ''Failed to prepare image a.png for analysis'' \<rparr>"
  let ?s0 = "startState ?bs"
  let ?s1 = "admitOne 10 ?s0"
  let ?s2 = "?s1\<lparr> pc := AtRace \<rparr>"
  let ?s3 = "processBatch_finish 0 (PrepareFailed ?e) 70 ?s2"
  have q: "batchQueue ?s0 = [0]" "activeBatches ?s0 = []" "pc ?s0 = AtAdmit"
    "batchQueue ?s1 = []" "activeBatches ?s1 = [0]" "pc ?s1 = AtAdmit"
    "batch_status (rs_batches ?s1 ! 0) = Processing"
    by (simp_all add: startState_def admitOne_def processBatch_start_def)
  have "sched_step ?s0 ?s1"
    by (intro sched_step.main main_step.admit) (simp_all add: q maxConcurrent_def)
  moreover have "sched_step ?s1 ?s2"
    by (intro sched_step.main main_step.wait) (simp_all add: q)
  moreover have "sched_step ?s2 ?s3"
    by (intro sched_step.env settle_step.settle) (simp_all add: q)
  ultimately have r: "reachable ?bs ?s3"
    unfolding reachable_def by (meson rtranclp.rtrancl_into_rtrancl rtranclp.rtrancl_refl)
  show ?thesis
    using r
    by (simp add: processBatch_finish_def finishRun_def startState_def admitOne_def
          processBatch_start_def pendingExample_def round_percent_def)
qed

end
